theory Spec2Isabelle
  imports Main "HOL-Library.Word" "HOL-Library.Monad_Syntax"
begin


unbundle bit_operations_syntax

section \<open>Memory and the allocator's global state\<close>

text \<open>
  Addresses, \<open>size_t\<close> and \<open>word_t\<close> are 64-bit words; arithmetic on them wraps.
  The contents of memory are a map from byte addresses to bytes. An 8-byte word is read
  and written little-endian (the x86-64 target of the source); the allocator itself only
  accesses whole words, \<open>memcpy\<close> and \<open>memset\<close> access bytes.
\<close>

type_synonym addr = "64 word"
type_synonym memory = "addr \<Rightarrow> 8 word"

definition load64 :: "memory \<Rightarrow> addr \<Rightarrow> 64 word" where
  "load64 m a =
     ucast (m a) OR push_bit 8 (ucast (m (a + 1))) OR push_bit 16 (ucast (m (a + 2)))
     OR push_bit 24 (ucast (m (a + 3))) OR push_bit 32 (ucast (m (a + 4)))
     OR push_bit 40 (ucast (m (a + 5))) OR push_bit 48 (ucast (m (a + 6)))
     OR push_bit 56 (ucast (m (a + 7)))"

definition store64 :: "memory \<Rightarrow> addr \<Rightarrow> 64 word \<Rightarrow> memory" where
  "store64 m a v =
     m(a := ucast v, a + 1 := ucast (drop_bit 8 v), a + 2 := ucast (drop_bit 16 v),
       a + 3 := ucast (drop_bit 24 v), a + 4 := ucast (drop_bit 32 v),
       a + 5 := ucast (drop_bit 40 v), a + 6 := ucast (drop_bit 48 v),
       a + 7 := ucast (drop_bit 56 v))"

text \<open>
  \<open>memcpy(dst, src, n)\<close>: the \<open>n\<close> bytes from \<open>dst\<close> on are replaced by the source bytes of
  the memory before the call. It is a function of the contents alone; the copies that
  \<open>realloc\<close> makes in the theorems below read and write inside the memory of the heap.
\<close>

definition memcpy :: "memory \<Rightarrow> addr \<Rightarrow> addr \<Rightarrow> 64 word \<Rightarrow> memory" where
  "memcpy m dst src n = (\<lambda>a. if a - dst < n then m (src + (a - dst)) else m a)"

text \<open>
  The globals of \<open>mm.c\<close> (\<open>heap_start\<close>, \<open>seg_list\<close>) together with the memory and the
  state of the memory system behind \<open>mem_sbrk\<close>: the first heap byte, the current break
  and the address the break may not pass.
\<close>

record heap_state =
  mem :: memory
  seg_list :: "nat \<Rightarrow> addr"
  heap_start :: addr
  mem_start_brk :: addr
  mem_brk :: addr
  mem_max_addr :: addr

abbreviation (input) NULL :: addr where
  "NULL \<equiv> 0"

text \<open>
  Modelled from the spec: \<open>memlib\<close> (\<open>mem_sbrk\<close>, \<open>mem_heap_lo\<close>, \<open>mem_heap_hi\<close>) is
  the external collaborator of section 6. \<open>mem_sbrk\<close> takes a signed increment, grows the
  heap by that many bytes and returns the old break, or fails (\<open>None\<close> stands for the
  sentinel \<open>(void *)-1\<close>) leaving everything as it was; it fails on a negative
  increment and when the break would pass \<open>mem_max_addr\<close>. \<open>mem_heap_lo\<close> and
  \<open>mem_heap_hi\<close> are the inclusive bounds of the heap.
\<close>

definition mem_sbrk :: "heap_state \<Rightarrow> 64 word \<Rightarrow> (addr \<times> heap_state) option" where
  "mem_sbrk s incr =
     (if sint incr < 0 \<or> unat (mem_max_addr s) < unat (mem_brk s) + unat incr then None
      else Some (mem_brk s, s\<lparr>mem_brk := mem_brk s + incr\<rparr>))"

definition mem_heap_lo :: "heap_state \<Rightarrow> addr" where
  "mem_heap_lo s = mem_start_brk s"

definition mem_heap_hi :: "heap_state \<Rightarrow> addr" where
  "mem_heap_hi s = mem_brk s - 1"

text \<open>
  The memory behind the heap is the range from \<open>mem_start_brk\<close> up to, not including,
  \<open>mem_max_addr\<close>. \<open>memset(dst, c, n)\<close> replaces the \<open>n\<close> bytes from \<open>dst\<close> on by \<open>c\<close>
  when they all lie in that range; otherwise it runs out of the memory the process owns
  and the program is stopped by a fault, which is the value \<open>None\<close>.
\<close>

definition mapped :: "heap_state \<Rightarrow> addr \<Rightarrow> 64 word \<Rightarrow> bool" where
  "mapped s a n \<longleftrightarrow>
     n = 0 \<or> (unat (mem_start_brk s) \<le> unat a \<and> unat a + unat n \<le> unat (mem_max_addr s))"

definition memset :: "heap_state \<Rightarrow> addr \<Rightarrow> 8 word \<Rightarrow> 64 word \<Rightarrow> heap_state option" where
  "memset s dst c n =
     (if mapped s dst n then Some (s\<lparr>mem := (\<lambda>a. if a - dst < n then c else mem s a)\<rparr>)
      else None)"

section \<open>Constants and short helper functions\<close>

definition wsize :: "64 word" where "wsize = 8"
definition dsize :: "64 word" where "dsize = 2 * wsize"
definition min_block_size :: "64 word" where "min_block_size = 2 * dsize"
definition chunksize :: "64 word" where "chunksize = push_bit 12 1"
definition alloc_mask :: "64 word" where "alloc_mask = 0x1"
definition prev_alloc_mask :: "64 word" where "prev_alloc_mask = 0x2"
definition size_mask :: "64 word" where "size_mask = NOT 0xF"

definition max_sz :: "64 word \<Rightarrow> 64 word \<Rightarrow> 64 word" where
  "max_sz x y = (if x > y then x else y)"

definition round_up :: "64 word \<Rightarrow> 64 word \<Rightarrow> 64 word" where
  "round_up sz n =
     (let asize = n * ((sz + (n - 1)) div n)
      in if asize < min_block_size then min_block_size else asize)"

definition pack :: "64 word \<Rightarrow> bool \<Rightarrow> bool \<Rightarrow> 64 word" where
  "pack sz alloc prev_alloc =
     (if alloc then
        (if prev_alloc then sz OR prev_alloc_mask OR alloc_mask else sz OR alloc_mask)
      else
        (if prev_alloc then sz OR prev_alloc_mask else sz))"

definition extract_size :: "64 word \<Rightarrow> 64 word" where
  "extract_size word = word AND size_mask"

definition extract_alloc :: "64 word \<Rightarrow> bool" where
  "extract_alloc word = (word AND alloc_mask \<noteq> 0)"

definition extract_prev_alloc :: "64 word \<Rightarrow> bool" where
  "extract_prev_alloc word = (word AND prev_alloc_mask \<noteq> 0)"

text \<open>
  A \<open>block_t\<close> at address \<open>b\<close>: the header word at \<open>b\<close>, the \<open>next\<close> pointer at
  \<open>b + 8\<close>, the \<open>prev\<close> pointer at \<open>b + 16\<close>; the payload starts at \<open>b + 8\<close>.
\<close>

definition header :: "heap_state \<Rightarrow> addr \<Rightarrow> 64 word" where
  "header s block = load64 (mem s) block"

definition set_header :: "heap_state \<Rightarrow> addr \<Rightarrow> 64 word \<Rightarrow> heap_state" where
  "set_header s block w = s\<lparr>mem := store64 (mem s) block w\<rparr>"

definition block_next :: "heap_state \<Rightarrow> addr \<Rightarrow> addr" where
  "block_next s block = load64 (mem s) (block + 8)"

definition block_prev :: "heap_state \<Rightarrow> addr \<Rightarrow> addr" where
  "block_prev s block = load64 (mem s) (block + 16)"

definition set_next :: "heap_state \<Rightarrow> addr \<Rightarrow> addr \<Rightarrow> heap_state" where
  "set_next s block p = s\<lparr>mem := store64 (mem s) (block + 8) p\<rparr>"

definition set_prev :: "heap_state \<Rightarrow> addr \<Rightarrow> addr \<Rightarrow> heap_state" where
  "set_prev s block p = s\<lparr>mem := store64 (mem s) (block + 16) p\<rparr>"

definition get_size :: "heap_state \<Rightarrow> addr \<Rightarrow> 64 word" where
  "get_size s block = extract_size (header s block)"

definition payload_to_header :: "addr \<Rightarrow> addr" where
  "payload_to_header bp = bp - 8"

definition header_to_payload :: "addr \<Rightarrow> addr" where
  "header_to_payload block = block + 8"

definition header_to_footer :: "heap_state \<Rightarrow> addr \<Rightarrow> addr" where
  "header_to_footer s block = block + 8 + get_size s block - dsize"

definition footer_to_header :: "heap_state \<Rightarrow> addr \<Rightarrow> addr" where
  "footer_to_header s footer = footer + wsize - extract_size (load64 (mem s) footer)"

definition get_payload_size :: "heap_state \<Rightarrow> addr \<Rightarrow> 64 word" where
  "get_payload_size s block = get_size s block - wsize"

definition get_alloc :: "heap_state \<Rightarrow> addr \<Rightarrow> bool" where
  "get_alloc s block = extract_alloc (header s block)"

definition get_prev_alloc :: "heap_state \<Rightarrow> addr \<Rightarrow> bool" where
  "get_prev_alloc s block = extract_prev_alloc (header s block)"

definition write_epilogue :: "heap_state \<Rightarrow> addr \<Rightarrow> heap_state" where
  "write_epilogue s block = set_header s block (pack 0 True False)"

definition write_block :: "heap_state \<Rightarrow> addr \<Rightarrow> 64 word \<Rightarrow> bool \<Rightarrow> bool \<Rightarrow> heap_state" where
  "write_block s block sz alloc prev_alloc =
     (let word = pack sz alloc prev_alloc;
          s1 = set_header s block word
      in if \<not> alloc then s1\<lparr>mem := store64 (mem s1) (header_to_footer s1 block) word\<rparr>
         else s1)"

definition find_next :: "heap_state \<Rightarrow> addr \<Rightarrow> addr" where
  "find_next s block = block + get_size s block"

definition update_next_prev_alloc :: "heap_state \<Rightarrow> addr \<Rightarrow> bool \<Rightarrow> heap_state" where
  "update_next_prev_alloc s block next_prev_alloc =
     (let next_block = find_next s block;
          word = pack (get_size s next_block) (get_alloc s next_block) next_prev_alloc
      in set_header s next_block word)"

definition find_prev_footer :: "addr \<Rightarrow> addr" where
  "find_prev_footer block = block - 8"

definition find_prev :: "heap_state \<Rightarrow> addr \<Rightarrow> addr" where
  "find_prev s block =
     (let footerp = find_prev_footer block
      in if extract_size (load64 (mem s) footerp) = 0 then NULL
         else footer_to_header s footerp)"

section \<open>The segregated free lists\<close>

definition list_length :: nat where "list_length = 15"

definition list0 :: "64 word" where "list0 = 32"
definition list1 :: "64 word" where "list1 = 64"
definition list2 :: "64 word" where "list2 = 96"
definition list3 :: "64 word" where "list3 = 128"
definition list4 :: "64 word" where "list4 = 160"
definition list5 :: "64 word" where "list5 = 192"
definition list6 :: "64 word" where "list6 = 256"
definition list7 :: "64 word" where "list7 = 512"
definition list8 :: "64 word" where "list8 = 1024"
definition list9 :: "64 word" where "list9 = 2048"
definition list10 :: "64 word" where "list10 = 4096"
definition list11 :: "64 word" where "list11 = 8192"
definition list12 :: "64 word" where "list12 = 16384"
definition list13 :: "64 word" where "list13 = 32768"
definition list14 :: "64 word" where "list14 = 65536"

definition find_index :: "64 word \<Rightarrow> nat" where
  "find_index sz =
     (if sz \<ge> list0 \<and> sz < list1 then 0
      else if sz \<ge> list1 \<and> sz < list2 then 1
      else if sz \<ge> list2 \<and> sz < list3 then 2
      else if sz \<ge> list3 \<and> sz < list4 then 3
      else if sz \<ge> list4 \<and> sz < list5 then 4
      else if sz \<ge> list5 \<and> sz < list6 then 5
      else if sz \<ge> list6 \<and> sz < list7 then 6
      else if sz \<ge> list7 \<and> sz < list8 then 7
      else if sz \<ge> list8 \<and> sz < list9 then 8
      else if sz \<ge> list9 \<and> sz < list10 then 9
      else if sz \<ge> list10 \<and> sz < list11 then 10
      else if sz \<ge> list11 \<and> sz < list12 then 11
      else if sz \<ge> list12 \<and> sz < list13 then 12
      else if sz \<ge> list13 \<and> sz < list14 then 13
      else 14)"

definition set_seg_list :: "heap_state \<Rightarrow> nat \<Rightarrow> addr \<Rightarrow> heap_state" where
  "set_seg_list s index p = s\<lparr>seg_list := (seg_list s)(index := p)\<rparr>"

definition remove_from_list :: "heap_state \<Rightarrow> addr \<Rightarrow> heap_state" where
  "remove_from_list s block =
     (let sz = get_size s block;
          index = find_index sz;
          bprev = block_prev s block;
          bnext = block_next s block
      in if bprev = NULL \<and> bnext = NULL then set_seg_list s index NULL
         else if bprev \<noteq> NULL \<and> bnext = NULL then set_next s bprev NULL
         else if bprev = NULL \<and> bnext \<noteq> NULL then
           set_prev (set_seg_list s index bnext) bnext NULL
         else set_prev (set_next s bprev bnext) bnext bprev)"

definition add_to_list :: "heap_state \<Rightarrow> addr \<Rightarrow> heap_state" where
  "add_to_list s block =
     (let sz = get_size s block;
          index = find_index sz
      in if seg_list s index = NULL then
           set_seg_list (set_prev (set_next s block NULL) block NULL) index block
         else
           (let s1 = set_prev s block NULL;
                s2 = set_next s1 block (seg_list s1 index);
                s3 = set_prev s2 (seg_list s2 index) block
            in set_seg_list s3 index block))"

section \<open>Coalescing, extending, splitting, searching\<close>

definition coalesce_block :: "heap_state \<Rightarrow> addr \<Rightarrow> heap_state \<times> addr" where
  "coalesce_block s block =
     (let prev = find_prev s block
      in if block \<noteq> NULL then
           (let prev_alloc = (if prev = NULL then True else get_prev_alloc s block);
                next_alloc = get_alloc s (find_next s block);
                sz = get_size s block
            in if prev_alloc \<and> next_alloc then
                 (update_next_prev_alloc s block False, block)
               else if prev_alloc \<and> \<not> next_alloc then
                 (let sz2 = sz + get_size s (find_next s block);
                      s1 = remove_from_list s (find_next s block);
                      s2 = write_block s1 block sz2 False True
                  in (update_next_prev_alloc s2 block False, block))
               else if \<not> prev_alloc \<and> next_alloc then
                 (let sz2 = sz + get_size s prev;
                      s1 = remove_from_list s prev;
                      s2 = write_block s1 prev sz2 False (get_prev_alloc s1 prev)
                  in (update_next_prev_alloc s2 prev False, prev))
               else
                 (let sz2 = sz + (get_size s prev + get_size s (find_next s block));
                      s1 = remove_from_list s prev;
                      s2 = remove_from_list s1 (find_next s1 block);
                      s3 = write_block s2 prev sz2 False (get_prev_alloc s2 prev)
                  in (update_next_prev_alloc s3 prev False, prev)))
         else (update_next_prev_alloc s block False, block))"

definition extend_heap :: "heap_state \<Rightarrow> 64 word \<Rightarrow> heap_state \<times> addr" where
  "extend_heap s sz0 =
     (let sz = round_up sz0 dsize
      in case mem_sbrk s sz of
           None \<Rightarrow> (s, NULL)
         | Some (bp, s1) \<Rightarrow>
             (let block = payload_to_header bp;
                  s2 = write_block s1 block sz False (get_prev_alloc s1 block);
                  block_next = find_next s2 block;
                  s3 = write_epilogue s2 block_next;
                  (s4, block2) = coalesce_block s3 block;
                  s5 = add_to_list s4 block2
              in (s5, block2)))"

definition split_block :: "heap_state \<Rightarrow> addr \<Rightarrow> 64 word \<Rightarrow> heap_state" where
  "split_block s block asize =
     (let s1 = remove_from_list s block;
          block_size = get_size s1 block
      in if block_size - asize \<ge> min_block_size then
           (let s2 = write_block s1 block asize True (get_prev_alloc s1 block);
                block_next = find_next s2 block;
                s3 = write_block s2 block_next (block_size - asize) False True
            in add_to_list s3 block_next)
         else
           (let s2 = write_block s1 block block_size True (get_prev_alloc s1 block)
            in update_next_prev_alloc s2 block True))"

text \<open>
  The inner \<open>while\<close> loop of \<open>find_fit\<close> walks one list along its \<open>next\<close> pointers. On a
  cyclic list without a fit it does not return; that is the value \<open>None\<close>. It returns
  the block found, or \<open>NULL\<close> at the end of the list.
\<close>

partial_function (option) find_fit_list :: "memory \<Rightarrow> 64 word \<Rightarrow> addr \<Rightarrow> addr option" where
  "find_fit_list m asize block =
     (if block \<noteq> NULL then
        (if \<not> extract_alloc (load64 m block) \<and> asize \<le> extract_size (load64 m block)
         then Some block
         else find_fit_list m asize (load64 m (block + 8)))
      else Some NULL)"

declare find_fit_list.simps [code]

function find_fit_from :: "heap_state \<Rightarrow> 64 word \<Rightarrow> nat \<Rightarrow> addr option" where
  "find_fit_from s asize index =
     (if index < list_length then
        (case find_fit_list (mem s) asize (seg_list s index) of
           None \<Rightarrow> None
         | Some block \<Rightarrow>
             if block \<noteq> NULL then Some block else find_fit_from s asize (Suc index))
      else Some NULL)"
  by pat_completeness auto
termination
  by (relation "measure (\<lambda>(s, asize, index). list_length - index)") auto

definition find_fit :: "heap_state \<Rightarrow> 64 word \<Rightarrow> addr option" where
  "find_fit s asize = find_fit_from s asize (find_index asize)"

section \<open>The public interface\<close>

definition clear_seg_list :: "heap_state \<Rightarrow> heap_state" where
  "clear_seg_list s = s\<lparr>seg_list := (\<lambda>index. if index < list_length then NULL else seg_list s index)\<rparr>"

definition mm_init :: "heap_state \<Rightarrow> heap_state \<times> bool" where
  "mm_init s =
     (case mem_sbrk s (2 * wsize) of
        None \<Rightarrow> (s, False)
      | Some (start, s1) \<Rightarrow>
          (let s2 = s1\<lparr>mem := store64 (mem s1) start (pack 0 True True)\<rparr>;
               s3 = s2\<lparr>mem := store64 (mem s2) (start + 8) (pack 0 True True)\<rparr>;
               s4 = s3\<lparr>heap_start := start + 8\<rparr>;
               s5 = clear_seg_list s4;
               (s6, block) = extend_heap s5 chunksize
           in if block = NULL then (s6, False) else (s6, True)))"

text \<open>
  \<open>malloc\<close> and \<open>realloc\<close> return the new state and the pointer; \<open>None\<close> when the
  search of the free lists does not return. \<open>calloc\<close> has two ways not to return a
  pointer: the search inside \<open>malloc\<close> does not return, or \<open>memset\<close> faults.
\<close>

datatype error = No_return | Fault

definition malloc :: "heap_state \<Rightarrow> 64 word \<Rightarrow> (heap_state \<times> addr) option" where
  "malloc s0 sz =
     (let s = (if heap_start s0 = NULL then fst (mm_init s0) else s0)
      in if sz = 0 then Some (s, NULL)
         else
           (let asize = round_up (sz + wsize) dsize
            in case find_fit s asize of
                 None \<Rightarrow> None
               | Some block \<Rightarrow>
                   if block = NULL then
                     (let extendsize = max_sz asize chunksize;
                          (s1, block1) = extend_heap s extendsize
                      in if block1 = NULL then Some (s1, NULL)
                         else Some (split_block s1 block1 asize, header_to_payload block1))
                   else Some (split_block s block asize, header_to_payload block)))"

definition free :: "heap_state \<Rightarrow> addr \<Rightarrow> heap_state" where
  "free s bp =
     (if bp = NULL then s
      else
        (let block = payload_to_header bp;
             sz = get_size s block;
             s1 = write_block s block sz False (get_prev_alloc s block);
             s2 = update_next_prev_alloc s1 block False;
             (s3, block2) = coalesce_block s2 block
         in add_to_list s3 block2))"

definition realloc :: "heap_state \<Rightarrow> addr \<Rightarrow> 64 word \<Rightarrow> (heap_state \<times> addr) option" where
  "realloc s ptr sz =
     (let block = payload_to_header ptr
      in if sz = 0 then Some (free s ptr, NULL)
         else if ptr = NULL then malloc s sz
         else
           (case malloc s sz of
              None \<Rightarrow> None
            | Some (s1, newptr) \<Rightarrow>
                if newptr = NULL then Some (s1, NULL)
                else
                  (let copysize0 = get_payload_size s1 block;
                       copysize = (if sz < copysize0 then sz else copysize0);
                       s2 = s1\<lparr>mem := memcpy (mem s1) newptr ptr copysize\<rparr>
                   in Some (free s2 ptr, newptr))))"

definition calloc :: "heap_state \<Rightarrow> 64 word \<Rightarrow> 64 word \<Rightarrow> error + heap_state \<times> addr" where
  "calloc s elements sz =
     (let asize = elements * sz
      in if elements = 0 then Inr (s, NULL)
         else if asize div elements \<noteq> sz then Inr (s, NULL)
         else
           (case malloc s asize of
              None \<Rightarrow> Inl No_return
            | Some (s1, bp) \<Rightarrow>
                if bp = NULL then Inr (s1, NULL)
                else
                  (case memset s1 bp 0 asize of
                     None \<Rightarrow> Inl Fault
                   | Some s2 \<Rightarrow> Inr (s2, bp))))"

section \<open>The heap checker\<close>

text \<open>
  Every loop of the checker follows sizes or pointers read from memory, so each may fail
  to return on a damaged heap; the loops are partial functions into \<open>option\<close>, and
  \<open>None\<close> is a checker that does not return. The test \<open>payload_addr % 16 != 0\<close> on
  an \<open>intptr_t\<close> is the same for C's truncating and HOL's flooring remainder.
\<close>

partial_function (option) check_payload_align_from :: "heap_state \<Rightarrow> addr \<Rightarrow> bool option" where
  "check_payload_align_from s block =
     (if get_size s block > 0 then
        (if get_alloc s block \<and> sint (header_to_payload block) mod 16 \<noteq> 0 then Some False
         else check_payload_align_from s (find_next s block))
      else Some True)"

declare check_payload_align_from.simps [code]

definition check_payload_align :: "heap_state \<Rightarrow> bool option" where
  "check_payload_align s = check_payload_align_from s (heap_start s)"

partial_function (option) check_acyclic_loop :: "heap_state \<Rightarrow> addr \<Rightarrow> addr \<Rightarrow> bool option" where
  "check_acyclic_loop s turtle rabbit =
     (if turtle \<noteq> rabbit then
        (if rabbit = NULL \<or> block_next s rabbit = NULL then Some True
         else check_acyclic_loop s (block_next s turtle) (block_next s (block_next s rabbit)))
      else Some False)"

declare check_acyclic_loop.simps [code]

definition check_acyclic :: "heap_state \<Rightarrow> addr \<Rightarrow> bool option" where
  "check_acyclic s free_list =
     (if free_list = NULL then Some True
      else check_acyclic_loop s free_list (block_next s free_list))"

partial_function (option) count_list :: "heap_state \<Rightarrow> addr \<Rightarrow> 64 word \<Rightarrow> 64 word option" where
  "count_list s block1 len =
     (if block1 \<noteq> NULL then count_list s (block_next s block1) (len + 1) else Some len)"

declare count_list.simps [code]

function count_lists_from :: "heap_state \<Rightarrow> nat \<Rightarrow> 64 word \<Rightarrow> 64 word option" where
  "count_lists_from s index len =
     (if index < list_length then
        (case count_list s (seg_list s index) len of
           None \<Rightarrow> None
         | Some len2 \<Rightarrow> count_lists_from s (Suc index) len2)
      else Some len)"
  by pat_completeness auto
termination
  by (relation "measure (\<lambda>(s, index, len). list_length - index)") auto

partial_function (option) count_free_from :: "heap_state \<Rightarrow> addr \<Rightarrow> 64 word \<Rightarrow> 64 word option" where
  "count_free_from s block2 res =
     (if get_size s block2 > 0 then
        count_free_from s (find_next s block2) (if \<not> get_alloc s block2 then res + 1 else res)
      else Some res)"

declare count_free_from.simps [code]

definition check_no_block_loss :: "heap_state \<Rightarrow> bool option" where
  "check_no_block_loss s =
     (case count_lists_from s 0 0 of
        None \<Rightarrow> None
      | Some len \<Rightarrow>
          (case count_free_from s (heap_start s) 0 of
             None \<Rightarrow> None
           | Some res \<Rightarrow> Some (len = res)))"

partial_function (option) check_no_consecutive_free_blocks_from ::
    "heap_state \<Rightarrow> addr \<Rightarrow> bool option" where
  "check_no_consecutive_free_blocks_from s block =
     (if get_size s block > 0 then
        (let next = find_next s block
         in if get_size s next > 0 \<and> \<not> get_alloc s block \<and> \<not> get_alloc s next then Some False
            else check_no_consecutive_free_blocks_from s (find_next s block))
      else Some True)"

declare check_no_consecutive_free_blocks_from.simps [code]

definition check_no_consecutive_free_blocks :: "heap_state \<Rightarrow> bool option" where
  "check_no_consecutive_free_blocks s = check_no_consecutive_free_blocks_from s (heap_start s)"

definition check_epi_prologue :: "heap_state \<Rightarrow> bool" where
  "check_epi_prologue s =
     (let epilogue = mem_heap_hi s - 7;
          epi = (get_alloc s epilogue \<and> get_size s epilogue = 0);
          prologue = mem_heap_lo s;
          pro = (get_alloc s prologue \<and> get_size s prologue = 0)
      in epi \<and> pro)"

definition out_of_range :: "heap_state \<Rightarrow> addr \<Rightarrow> bool" where
  "out_of_range s p =
     (sint p \<le> sint (mem_heap_lo s) \<or> sint p \<ge> sint (mem_heap_hi s) - 7)"

partial_function (option) check_range_from :: "heap_state \<Rightarrow> addr \<Rightarrow> bool option" where
  "check_range_from s block =
     (if get_size s block > 0 then
        (if out_of_range s block then Some False else check_range_from s (find_next s block))
      else Some True)"

declare check_range_from.simps [code]

definition check_range :: "heap_state \<Rightarrow> bool option" where
  "check_range s = check_range_from s (heap_start s)"

text \<open>
  The checks of the free lists are a \<open>for\<close> loop over the fifteen list heads around a
  loop along one list; the first failure returns \<open>false\<close>.
\<close>

function for_each_list :: "(nat \<Rightarrow> addr \<Rightarrow> bool option) \<Rightarrow> heap_state \<Rightarrow> nat \<Rightarrow> bool option" where
  "for_each_list chk s index =
     (if index < list_length then
        (case chk index (seg_list s index) of
           None \<Rightarrow> None
         | Some ok \<Rightarrow> if ok then for_each_list chk s (Suc index) else Some False)
      else Some True)"
  by pat_completeness auto
termination
  by (relation "measure (\<lambda>(chk, s, index). list_length - index)") auto

partial_function (option) check_free_list_consistent_list ::
    "heap_state \<Rightarrow> addr \<Rightarrow> bool option" where
  "check_free_list_consistent_list s block =
     (if block \<noteq> NULL then
        (if block_next s block \<noteq> NULL \<and> block_prev s (block_next s block) \<noteq> block
         then Some False
         else check_free_list_consistent_list s (block_next s block))
      else Some True)"

declare check_free_list_consistent_list.simps [code]

definition check_free_list_consistent :: "heap_state \<Rightarrow> bool option" where
  "check_free_list_consistent s = for_each_list (\<lambda>index. check_free_list_consistent_list s) s 0"

definition list_lo :: "nat \<Rightarrow> 64 word" where
  "list_lo index =
     (if index = 0 then list0 else if index = 1 then list1 else if index = 2 then list2
      else if index = 3 then list3 else if index = 4 then list4 else if index = 5 then list5
      else if index = 6 then list6 else if index = 7 then list7 else if index = 8 then list8
      else if index = 9 then list9 else if index = 10 then list10
      else if index = 11 then list11 else if index = 12 then list12
      else if index = 13 then list13 else list14)"

definition list_hi :: "nat \<Rightarrow> 64 word" where
  "list_hi index =
     (if index = 0 then list1 else if index = 1 then list2 else if index = 2 then list3
      else if index = 3 then list4 else if index = 4 then list5 else if index = 5 then list6
      else if index = 6 then list7 else if index = 7 then list8 else if index = 8 then list9
      else if index = 9 then list10 else if index = 10 then list11
      else if index = 11 then list12 else if index = 12 then list13
      else if index = 13 then list14 else 0xffffffffffffffff)"

partial_function (option) check_free_list_size_range_list ::
    "heap_state \<Rightarrow> 64 word \<Rightarrow> 64 word \<Rightarrow> addr \<Rightarrow> bool option" where
  "check_free_list_size_range_list s lo hi block =
     (if block \<noteq> NULL then
        (if get_size s block < lo \<or> get_size s block \<ge> hi then Some False
         else check_free_list_size_range_list s lo hi (block_next s block))
      else Some True)"

declare check_free_list_size_range_list.simps [code]

definition check_free_list_size_range :: "heap_state \<Rightarrow> bool option" where
  "check_free_list_size_range s =
     for_each_list (\<lambda>index. check_free_list_size_range_list s (list_lo index) (list_hi index)) s 0"

partial_function (option) check_free_list_pointer_range_list ::
    "heap_state \<Rightarrow> addr \<Rightarrow> bool option" where
  "check_free_list_pointer_range_list s block =
     (if block \<noteq> NULL then
        (if block_prev s block \<noteq> NULL \<and> out_of_range s (block_prev s block) then Some False
         else if block_next s block \<noteq> NULL \<and> out_of_range s (block_next s block) then Some False
         else check_free_list_pointer_range_list s (block_next s block))
      else Some True)"

declare check_free_list_pointer_range_list.simps [code]

definition check_free_list_pointer_range :: "heap_state \<Rightarrow> bool option" where
  "check_free_list_pointer_range s =
     for_each_list (\<lambda>index. check_free_list_pointer_range_list s) s 0"

partial_function (option) check_curr_next_consistency_from ::
    "heap_state \<Rightarrow> addr \<Rightarrow> bool option" where
  "check_curr_next_consistency_from s block =
     (if get_size s block > 0 then
        (let next = find_next s block
         in if get_size s next > 0 \<and> get_prev_alloc s next \<noteq> get_alloc s block then Some False
            else check_curr_next_consistency_from s (find_next s block))
      else Some True)"

declare check_curr_next_consistency_from.simps [code]

definition check_curr_next_consistency :: "heap_state \<Rightarrow> bool option" where
  "check_curr_next_consistency s = check_curr_next_consistency_from s (heap_start s)"

partial_function (option) check_header_footer_consistency_from ::
    "heap_state \<Rightarrow> addr \<Rightarrow> bool option" where
  "check_header_footer_consistency_from s block =
     (if get_size s block > 0 then
        (if \<not> get_alloc s block \<and> header s block \<noteq> load64 (mem s) (header_to_footer s block)
         then Some False
         else check_header_footer_consistency_from s (find_next s block))
      else Some True)"

declare check_header_footer_consistency_from.simps [code]

definition check_header_footer_consistency :: "heap_state \<Rightarrow> bool option" where
  "check_header_footer_consistency s = check_header_footer_consistency_from s (heap_start s)"

text \<open>
  \<open>mm_checkheap\<close> runs all its checks, the acyclicity check on every list, and returns
  the flag that any failure cleared.
\<close>

function check_acyclic_all :: "heap_state \<Rightarrow> nat \<Rightarrow> bool \<Rightarrow> bool option" where
  "check_acyclic_all s index errorflag =
     (if index < list_length then
        (case check_acyclic s (seg_list s index) of
           None \<Rightarrow> None
         | Some ok \<Rightarrow> check_acyclic_all s (Suc index) (errorflag \<and> ok))
      else Some errorflag)"
  by pat_completeness auto
termination
  by (relation "measure (\<lambda>(s, index, errorflag). list_length - index)") auto

definition mm_checkheap :: "heap_state \<Rightarrow> bool option" where
  "mm_checkheap s = do {
     c1 \<leftarrow> check_payload_align s;
     c2 \<leftarrow> check_acyclic_all s 0 True;
     c3 \<leftarrow> Some (check_epi_prologue s);
     c4 \<leftarrow> check_range s;
     c5 \<leftarrow> check_free_list_consistent s;
     c6 \<leftarrow> check_free_list_size_range s;
     c7 \<leftarrow> check_free_list_pointer_range s;
     c8 \<leftarrow> check_header_footer_consistency s;
     c9 \<leftarrow> check_curr_next_consistency s;
     c10 \<leftarrow> check_no_consecutive_free_blocks s;
     c11 \<leftarrow> check_no_block_loss s;
     Some (c1 \<and> c2 \<and> c3 \<and> c4 \<and> c5 \<and> c6 \<and> c7 \<and> c8 \<and> c9 \<and> c10 \<and> c11)
   }"

section \<open>Concrete states\<close>

text \<open>A memory system with no room left: the break already is at its limit.\<close>

definition no_room :: heap_state where
  "no_room = \<lparr>mem = (\<lambda>_. 0), seg_list = (\<lambda>_. NULL), heap_start = NULL,
     mem_start_brk = 0x10000, mem_brk = 0x10000, mem_max_addr = 0x10000\<rparr>"

text \<open>
  The state before \<open>mm_init\<close>: no heap yet, zeroed memory, the break at \<open>0x10000\<close>
  and room for one MiB; and the state that \<open>mm_init\<close> makes of it: prologue, one free
  block of 4096 bytes in list 10, epilogue.
\<close>

definition boot :: heap_state where
  "boot = \<lparr>mem = (\<lambda>_. 0), seg_list = (\<lambda>_. NULL), heap_start = NULL,
     mem_start_brk = 0x10000, mem_brk = 0x10000, mem_max_addr = 0x110000\<rparr>"

definition after_init :: heap_state where
  "after_init =
     \<lparr>mem = store64 (store64 (store64 (store64 (store64 (store64 (\<lambda>_. 0)
              0x10000 3) 0x10008 0x1002) 0x11000 0x1002) 0x11008 1) 0x10010 0) 0x10018 0,
      seg_list = (\<lambda>_. NULL)(10 := 0x10008), heap_start = 0x10008,
      mem_start_brk = 0x10000, mem_brk = 0x11010, mem_max_addr = 0x110000\<rparr>"

section \<open>Free lists as lists\<close>

text \<open>
  \<open>free_list m p bs\<close>: following the \<open>next\<close> pointers from \<open>p\<close> visits exactly the
  blocks \<open>bs\<close>, none of them \<open>NULL\<close>, and then reaches \<open>NULL\<close>.
\<close>

fun free_list :: "memory \<Rightarrow> addr \<Rightarrow> addr list \<Rightarrow> bool" where
  "free_list m p [] \<longleftrightarrow> p = NULL"
| "free_list m p (b # bs) \<longleftrightarrow> p = b \<and> b \<noteq> NULL \<and> free_list m (load64 m (b + 8)) bs"

text \<open>A block fits a request when it is free and at least as large.\<close>

definition fits :: "memory \<Rightarrow> 64 word \<Rightarrow> addr \<Rightarrow> bool" where
  "fits m asize b \<longleftrightarrow> \<not> extract_alloc (load64 m b) \<and> asize \<le> extract_size (load64 m b)"

text \<open>The first block that fits, in a list of blocks; \<open>NULL\<close> when none does.\<close>

definition first_fit :: "memory \<Rightarrow> 64 word \<Rightarrow> addr list \<Rightarrow> addr" where
  "first_fit m asize bs = (case find (fits m asize) bs of None \<Rightarrow> NULL | Some b \<Rightarrow> b)"

text \<open>
  The heap after \<open>malloc(2024)\<close> on the fresh heap, which returns \<open>0x10010\<close>: an
  allocated block of 2032 bytes at \<open>0x10008\<close> and a free block of 2064 bytes at
  \<open>0x107F8\<close> in list 9.
\<close>

definition after_malloc :: heap_state where
  "after_malloc =
     after_init
     \<lparr>mem := store64 (store64 (store64 (store64 (store64 (mem after_init)
               0x10008 0x7F3) 0x107F8 0x812) 0x11000 0x812) 0x10800 0) 0x10808 0,
      seg_list := (\<lambda>_. NULL)(10 := NULL, 9 := 0x107F8)\<rparr>"

text \<open>
  \<open>realloc(0x10010, 2 ^ 64 - 8)\<close> on that heap, step by step: its call of \<open>malloc\<close>
  carves a block of 32 bytes at \<open>0x107F8\<close> out of the free block and leaves a free
  block of 2032 bytes at \<open>0x10818\<close> in list 8; then 2024 bytes are copied to
  \<open>0x10800\<close>; then the old block is freed.
\<close>

definition after_inner_malloc :: heap_state where
  "after_inner_malloc =
     after_malloc
     \<lparr>mem := store64 (store64 (store64 (store64 (store64 (mem after_malloc)
               0x107F8 0x23) 0x10818 0x7F2) 0x11000 0x7F2) 0x10820 0) 0x10828 0,
      seg_list := (\<lambda>_. NULL)(10 := NULL, 9 := NULL, 8 := 0x10818)\<rparr>"

definition after_memcpy :: heap_state where
  "after_memcpy =
     after_inner_malloc\<lparr>mem := memcpy (mem after_inner_malloc) 0x10800 0x10010 2024\<rparr>"

definition after_realloc :: heap_state where
  "after_realloc =
     after_memcpy
     \<lparr>mem := store64 (store64 (store64 (store64 (store64 (store64 (mem after_memcpy)
               0x10008 0x7F2) 0x107F0 0x7F2) 0x107F8 0x21) 0x10018 0) 0x10010 0x10818)
               0x10828 0x10008,
      seg_list := (\<lambda>_. NULL)(10 := NULL, 9 := NULL, 8 := 0x10008)\<rparr>"

section \<open>The heap as a list of blocks\<close>

text \<open>
  The natural number \<open>n\<close> as a 64-bit address or size. The description of the heap
  below counts in natural numbers, where sums do not wrap.
\<close>

definition w64 :: "nat \<Rightarrow> 64 word" where
  "w64 n = of_nat n"

text \<open>
  A well-formed heap is described by the list of its blocks in address order, each with
  its address, its size and its allocation status. \<open>chain a bl e\<close>: the blocks \<open>bl\<close>
  tile the addresses from \<open>a\<close> to \<open>e\<close>, each size a multiple of 16 and at least 32.
\<close>

type_synonym blk = "nat \<times> nat \<times> bool"

fun chain :: "nat \<Rightarrow> blk list \<Rightarrow> nat \<Rightarrow> bool" where
  "chain a [] e \<longleftrightarrow> a = e"
| "chain a ((b, sz, al) # bl) e \<longleftrightarrow> b = a \<and> 32 \<le> sz \<and> 16 dvd sz \<and> chain (a + sz) bl e"

text \<open>The allocation status of the last block, \<open>pa\<close> when there is none.\<close>

definition last_alloc :: "bool \<Rightarrow> blk list \<Rightarrow> bool" where
  "last_alloc pa bl = (if bl = [] then pa else snd (snd (last bl)))"

text \<open>
  \<open>hdrs m pa bl\<close>: in memory \<open>m\<close> every block of \<open>bl\<close> has the header of its size and
  status, with the \<open>prev_alloc\<close> bit equal to the status of the block before it (\<open>pa\<close> for
  the first), and every free block has a footer that holds its size.
\<close>

fun hdrs :: "memory \<Rightarrow> bool \<Rightarrow> blk list \<Rightarrow> bool" where
  "hdrs m pa [] \<longleftrightarrow> True"
| "hdrs m pa ((b, sz, al) # bl) \<longleftrightarrow>
     load64 m (w64 b) = pack (w64 sz) al pa
     \<and> (\<not> al \<longrightarrow> extract_size (load64 m (w64 (b + sz - 8))) = w64 sz)
     \<and> hdrs m al bl"

text \<open>
  \<open>path k m p xs\<close>: following the pointer field at offset \<open>k\<close> (8 for \<open>next\<close>, 16 for
  \<open>prev\<close>) from \<open>p\<close> visits the blocks \<open>xs\<close> and then reaches \<open>NULL\<close>.
\<close>

fun path :: "nat \<Rightarrow> memory \<Rightarrow> addr \<Rightarrow> nat list \<Rightarrow> bool" where
  "path k m p [] \<longleftrightarrow> p = NULL"
| "path k m p (x # xs) \<longleftrightarrow> p = w64 x \<and> path k m (load64 m (w64 (x + k))) xs"

definition headp :: "nat list \<Rightarrow> addr" where
  "headp xs = (if xs = [] then NULL else w64 (hd xs))"

definition lastp :: "nat list \<Rightarrow> addr" where
  "lastp xs = (if xs = [] then NULL else w64 (last xs))"

text \<open>
  The invariant of the allocator, for the blocks \<open>bl\<close> and the free lists \<open>fl\<close>, in
  two parts. \<open>heap_blocks\<close>: the heap lies below \<open>2 ^ 63\<close> and starts on a multiple of
  16; the blocks tile it between the prologue word and the epilogue word; the prologue
  word, the block headers and the epilogue word are in place. \<open>heap_lists\<close>: list \<open>i\<close>
  is a doubly linked list of exactly the free blocks of size class \<open>i\<close> that are not in
  \<open>U\<close>, the set of free blocks that are in no list at the moment (empty between public
  calls).
\<close>

definition heap_blocks :: "heap_state \<Rightarrow> blk list \<Rightarrow> bool" where
  "heap_blocks s bl \<longleftrightarrow>
     16 dvd unat (mem_start_brk s)
     \<and> unat (mem_brk s) \<le> unat (mem_max_addr s)
     \<and> unat (mem_max_addr s) < 2 ^ 63
     \<and> heap_start s = mem_start_brk s + 8
     \<and> unat (mem_start_brk s) + 16 \<le> unat (mem_brk s)
     \<and> chain (unat (mem_start_brk s) + 8) bl (unat (mem_brk s) - 8)
     \<and> load64 (mem s) (mem_start_brk s) = pack 0 True True
     \<and> hdrs (mem s) True bl
     \<and> load64 (mem s) (mem_brk s - 8) = pack 0 True (last_alloc True bl)"

definition heap_lists :: "heap_state \<Rightarrow> blk list \<Rightarrow> (nat \<Rightarrow> nat list) \<Rightarrow> nat set \<Rightarrow> bool" where
  "heap_lists s bl fl U \<longleftrightarrow>
     (\<forall>i<list_length.
        path 8 (mem s) (seg_list s i) (fl i)
        \<and> path 16 (mem s) (lastp (fl i)) (rev (fl i))
        \<and> distinct (fl i)
        \<and> set (fl i) = {b. \<exists>sz. (b, sz, False) \<in> set bl \<and> find_index (w64 sz) = i \<and> b \<notin> U})"

definition heap_inv :: "heap_state \<Rightarrow> blk list \<Rightarrow> (nat \<Rightarrow> nat list) \<Rightarrow> nat set \<Rightarrow> bool" where
  "heap_inv s bl fl U \<longleftrightarrow> heap_blocks s bl \<and> heap_lists s bl fl U"

text \<open>An address of a heap word: a multiple of 8 below \<open>2 ^ 63\<close>.\<close>

definition va :: "nat \<Rightarrow> bool" where
  "va a \<longleftrightarrow> 8 dvd a \<and> a < 2 ^ 63"

text \<open>
  The tags behind a block: the headers and footers of the blocks \<open>bl\<close> that follow it, and
  the epilogue word at \<open>e\<close>; \<open>pa\<close> is the allocation status of the block in front.
\<close>

definition tl_ok :: "memory \<Rightarrow> bool \<Rightarrow> blk list \<Rightarrow> nat \<Rightarrow> bool" where
  "tl_ok m pa bl e \<longleftrightarrow> hdrs m pa bl \<and> load64 m (w64 e) = pack 0 True (last_alloc pa bl)"

abbreviation (input) first_addr :: "heap_state \<Rightarrow> nat" where
  "first_addr s \<equiv> unat (mem_start_brk s) + 8"

abbreviation (input) epi_addr :: "heap_state \<Rightarrow> nat" where
  "epi_addr s \<equiv> unat (mem_brk s) - 8"

text \<open>The allocated blocks of a block list, as pairs of address and size.\<close>

definition allocd :: "blk list \<Rightarrow> (nat \<times> nat) set" where
  "allocd bl = {(b, sz). (b, sz, True) \<in> set bl}"

text \<open>The payload pointers of the allocated blocks.\<close>

definition payloads :: "blk list \<Rightarrow> addr set" where
  "payloads bl = (\<lambda>(b, sz). w64 (b + 8)) ` allocd bl"

section \<open>Reachable states\<close>

text \<open>
  Modelled from the spec: the memory system before \<open>mm_init\<close>. The heap is empty, its
  first address is a multiple of 16 (the alignment contract of \<open>sbrk\<close>), and the memory
  behind it ends below \<open>2 ^ 63\<close>, so that no address of the heap wraps around.
\<close>

definition boot_ok :: "heap_state \<Rightarrow> bool" where
  "boot_ok s \<longleftrightarrow>
     mem_brk s = mem_start_brk s \<and> 16 dvd unat (mem_start_brk s)
     \<and> unat (mem_start_brk s) \<le> unat (mem_max_addr s) \<and> unat (mem_max_addr s) < 2 ^ 63"

text \<open>
  The states a client can reach, with the set of the pointers it holds: the pointers the
  allocator has returned and the client has not given back. The client starts with a
  successful \<open>mm_init\<close>, calls \<open>malloc\<close>, \<open>calloc\<close>, \<open>free\<close> and \<open>realloc\<close> (the last two on
  \<open>NULL\<close> or on a pointer it holds, \<open>realloc\<close> of a pointer it holds with a size whose
  adjustment does not wrap around), and stores bytes into the payload of a block it holds.
\<close>

inductive reach :: "heap_state \<Rightarrow> addr set \<Rightarrow> bool" where
  init: "boot_ok s0 \<Longrightarrow> mm_init s0 = (s, True) \<Longrightarrow> reach s {}"
| malloc: "reach s L \<Longrightarrow> malloc s n = Some (s', p) \<Longrightarrow>
     reach s' (if p = NULL then L else insert p L)"
| calloc: "reach s L \<Longrightarrow> calloc s c n = Inr (s', p) \<Longrightarrow>
     reach s' (if p = NULL then L else insert p L)"
| free: "reach s L \<Longrightarrow> p \<in> L \<or> p = NULL \<Longrightarrow> reach (free s p) (L - {p})"
| realloc: "reach s L \<Longrightarrow> p \<in> L \<Longrightarrow> unat n + 23 < 2 ^ 64 \<Longrightarrow>
     realloc s p n = Some (s', q) \<Longrightarrow>
     reach s' (if q \<noteq> NULL then insert q (L - {p}) else if n = 0 then L - {p} else L)"
| realloc_null: "reach s L \<Longrightarrow> realloc s NULL n = Some (s', q) \<Longrightarrow>
     reach s' (if q = NULL then L else insert q L)"
| store: "reach s L \<Longrightarrow> p \<in> L \<Longrightarrow> i < get_payload_size s (payload_to_header p) \<Longrightarrow>
     reach (s\<lparr>mem := (mem s)(p + i := v)\<rparr>) L"

section \<open>Reading and writing words\<close>

lemma ucast_ucast_byte: "(ucast (ucast (w::64 word) :: 8 word) :: 64 word) = take_bit 8 w"
  by (rule bit_eqI) (auto simp: bit_simps)

lemma split8: "take_bit 8 v OR push_bit 8 (take_bit 8 (drop_bit 8 v)) OR push_bit 16 (take_bit 8 (drop_bit 16 v))
     OR push_bit 24 (take_bit 8 (drop_bit 24 v)) OR push_bit 32 (take_bit 8 (drop_bit 32 v))
     OR push_bit 40 (take_bit 8 (drop_bit 40 v)) OR push_bit 48 (take_bit 8 (drop_bit 48 v))
     OR push_bit 56 (take_bit 8 (drop_bit 56 v)) = (v::64 word)"
proof (rule bit_eqI)
  fix n assume "possible_bit TYPE(64 word) n"
  then have n: "n < 64" by simp
  then consider "n < 8" | "8 \<le> n" "n < 16" | "16 \<le> n" "n < 24" | "24 \<le> n" "n < 32"
    | "32 \<le> n" "n < 40" | "40 \<le> n" "n < 48" | "48 \<le> n" "n < 56" | "56 \<le> n" "n < 64"
    by linarith
  then show "bit (take_bit 8 v OR push_bit 8 (take_bit 8 (drop_bit 8 v)) OR push_bit 16 (take_bit 8 (drop_bit 16 v))
     OR push_bit 24 (take_bit 8 (drop_bit 24 v)) OR push_bit 32 (take_bit 8 (drop_bit 32 v))
     OR push_bit 40 (take_bit 8 (drop_bit 40 v)) OR push_bit 48 (take_bit 8 (drop_bit 48 v))
     OR push_bit 56 (take_bit 8 (drop_bit 56 v))) n = bit v n"
    by cases (auto simp add: bit_simps)
qed

lemma load64_store64_same: "load64 (store64 m a v) a = v"
  unfolding load64_def store64_def
  by (simp add: ucast_ucast_byte split8)

lemma off_ne: "8 \<le> b - a \<Longrightarrow> 8 \<le> a - b \<Longrightarrow> i < 8 \<Longrightarrow> j < 8 \<Longrightarrow> b + i \<noteq> a + (j::64 word)"
  by unat_arith

lemma store64_other_byte:
  assumes "8 \<le> x - a"
  shows "store64 m a v x = m x"
proof -
  have "x \<noteq> a + j" if "j < 8" for j
    using assms that by unat_arith
  from this[of 0] this[of 1] this[of 2] this[of 3] this[of 4] this[of 5] this[of 6] this[of 7]
  show ?thesis by (simp add: store64_def)
qed

lemma load64_store64_other:
  assumes "8 \<le> b - a" "8 \<le> a - b"
  shows "load64 (store64 m a v) b = load64 m b"
proof -
  have "8 \<le> (b + i) - a" if "i < 8" for i
    using assms that by unat_arith
  then have "store64 m a v (b + i) = m (b + i)" if "i < 8" for i
    using that by (simp add: store64_other_byte)
  from this[of 0] this[of 1] this[of 2] this[of 3] this[of 4] this[of 5] this[of 6] this[of 7]
  show ?thesis by (simp add: load64_def)
qed

lemma load64_zero: "load64 (\<lambda>_. 0) a = 0"
  by (simp add: load64_def)

lemma store64_store64_same: "store64 (store64 m a v) a w = store64 m a w"
  by (simp add: store64_def)

lemma word_less_8_cases:
  assumes "(k::64 word) < 8"
  shows "k = 0 \<or> k = 1 \<or> k = 2 \<or> k = 3 \<or> k = 4 \<or> k = 5 \<or> k = 6 \<or> k = 7"
proof -
  have "unat k < 8" using assms by (simp add: word_less_nat_alt)
  then have "unat k = 0 \<or> unat k = 1 \<or> unat k = 2 \<or> unat k = 3 \<or> unat k = 4 \<or> unat k = 5
      \<or> unat k = 6 \<or> unat k = 7"
    by linarith
  then show ?thesis
    by (simp add: word_unat_eq_iff)
qed

lemma store64_apply:
  "store64 m a v x = (if x - a < 8 then ucast (drop_bit (8 * unat (x - a)) v) else m x)"
proof (cases "x - a < 8")
  case False
  then have "8 \<le> x - a" by (simp add: not_less)
  then have "store64 m a v x = m x" by (rule store64_other_byte)
  with False show ?thesis by simp
next
  case True
  define k where "k = x - a"
  have x: "x = a + k" by (simp add: k_def)
  from True have "k = 0 \<or> k = 1 \<or> k = 2 \<or> k = 3 \<or> k = 4 \<or> k = 5 \<or> k = 6 \<or> k = 7"
    unfolding k_def by (rule word_less_8_cases)
  then show ?thesis
    unfolding x by (elim disjE) (simp_all add: store64_def)
qed

lemma store64_commute:
  assumes "b < a" "8 \<le> b - a" "8 \<le> a - b"
  shows "store64 (store64 m a v) b w = store64 (store64 m b w) a v"
proof (rule ext)
  fix x
  have "\<not> (x - a < 8 \<and> x - b < 8)"
    using assms by unat_arith
  then show "store64 (store64 m a v) b w x = store64 (store64 m b w) a v x"
    by (auto simp add: store64_apply)
qed

section \<open>Size classes\<close>

lemmas list_bounds =
  list0_def list1_def list2_def list3_def list4_def list5_def list6_def list7_def
  list8_def list9_def list10_def list11_def list12_def list13_def list14_def

lemma find_index_less_list_length: "find_index sz < list_length"
  by (simp add: find_index_def list_length_def)

text \<open>
  C10. Every size strictly below the 32-byte minimum block size, 0 included, falls through
  every branch of the ladder of \<open>find_index\<close> (each asks for \<open>size >= 32\<close> or more) and
  is put in class 14, the open-ended class of the largest blocks.
\<close>

theorem find_index_below_min: "sz < 32 \<Longrightarrow> find_index sz = 14"
proof -
  assume lt: "sz < 32"
  have b: "(c \<le> sz) = False" if "32 \<le> c" for c :: "64 word"
    using that lt by simp
  show ?thesis
    by (simp add: find_index_def list_bounds b)
qed

theorem find_index_below_min_witness: "(0::64 word) < 32 \<and> find_index 0 = 14"
  using find_index_below_min [of 0] by simp

section \<open>Rounding the request\<close>

text \<open>
  Without overflow \<open>round_up\<close> is the rounding up to the next multiple of 16, with the
  floor of 32: for a request \<open>n\<close> with \<open>n + 23 < 2 ^ 64\<close> the adjusted size that
  \<open>malloc\<close> computes is \<open>max 32 (16 * ceil ((n + 8) / 16))\<close>.
\<close>

lemma round_up_exact:
  assumes "unat n + 23 < 2 ^ 64"
  shows "unat (round_up (n + wsize) dsize) = max 32 (16 * ((unat n + 8 + 15) div 16))"
proof -
  have a: "unat (n + 23) = unat n + 23"
    using assms by (simp add: unat_word_ariths)
  have d: "unat ((n + 23) div 16) = (unat n + 23) div 16"
    by (simp add: unat_div a)
  have m: "unat (16 * ((n + 23) div 16)) = 16 * ((unat n + 23) div 16)"
  proof -
    have "16 * ((unat n + 23) div 16) < 2 ^ 64"
      using assms by simp
    then show ?thesis
      by (simp add: unat_word_ariths d)
  qed
  have m': "unat (16 * ((23 + n) div 16)) = 16 * ((23 + unat n) div 16)"
    using m by (simp add: add.commute)
  show ?thesis
    by (simp add: round_up_def wsize_def dsize_def min_block_size_def Let_def
        word_less_nat_alt max_def m')
qed

lemma round_up_56_57:
  "round_up (56 + wsize) dsize = 64" "round_up (57 + wsize) dsize = 80"
  by (simp_all add: round_up_def wsize_def dsize_def min_block_size_def)

text \<open>
  C3. At the request \<open>n = 2 ^ 64 - 8\<close> the sum \<open>n + 8\<close> wraps to 0 and the adjusted
  size is 32, where the exact value \<open>max 32 (16 * ceil ((n + 8) / 16))\<close> is \<open>2 ^ 64\<close>.
\<close>

theorem round_up_wraps:
  "round_up (0xFFFFFFFFFFFFFFF8 + wsize) dsize = 32
   \<and> max 32 (16 * ((unat (0xFFFFFFFFFFFFFFF8 :: 64 word) + 8 + 15) div 16)) = (2 ^ 64 :: nat)"
  by (simp add: round_up_def wsize_def dsize_def min_block_size_def)

section \<open>Failure of the memory system\<close>

text \<open>
  C9. When \<open>mem_sbrk\<close> fails inside \<open>extend_heap\<close>, \<open>extend_heap\<close> returns \<open>NULL\<close> and
  the whole state (every byte of memory, the epilogue with it, and every list head) is
  the state before the call.
\<close>

theorem extend_heap_sbrk_fails:
  "mem_sbrk s (round_up sz dsize) = None \<Longrightarrow> extend_heap s sz = (s, NULL)"
  by (simp add: extend_heap_def Let_def)

theorem extend_heap_sbrk_fails_witness:
  "mem_sbrk no_room (round_up 4096 dsize) = None \<and> extend_heap no_room 4096 = (no_room, NULL)"
proof -
  have h: "mem_sbrk no_room (round_up 4096 dsize) = None"
    by (simp add: mem_sbrk_def no_room_def round_up_def dsize_def wsize_def min_block_size_def)
  show ?thesis using h extend_heap_sbrk_fails [OF h] by simp
qed

section \<open>Searching the free lists\<close>

lemma find_fit_list_free_list:
  "free_list m p bs \<Longrightarrow> find_fit_list m asize p = Some (first_fit m asize bs)"
proof (induction bs arbitrary: p)
  case Nil
  then show ?case
    by (subst find_fit_list.simps) (simp add: first_fit_def)
next
  case (Cons b bs)
  then have p: "p = b" "b \<noteq> 0" and rest: "free_list m (load64 m (b + 8)) bs"
    by simp_all
  show ?case
    by (subst find_fit_list.simps) (simp add: p Cons.IH [OF rest] first_fit_def fits_def)
qed

lemma free_list_nonnull: "free_list m p bs \<Longrightarrow> 0 \<notin> set bs"
  by (induction bs arbitrary: p) auto

lemma first_fit_append:
  "first_fit m asize (xs @ ys) =
     (if \<exists>b \<in> set xs. fits m asize b then first_fit m asize xs else first_fit m asize ys)"
  by (induction xs) (auto simp: first_fit_def)

lemma first_fit_null_iff:
  "0 \<notin> set bs \<Longrightarrow> first_fit m asize bs = 0 \<longleftrightarrow> \<not> (\<exists>b \<in> set bs. fits m asize b)"
  by (induction bs) (auto simp: first_fit_def)

lemma first_fit_fits:
  "\<exists>b \<in> set bs. fits m asize b \<Longrightarrow> first_fit m asize bs \<in> set bs \<and> fits m asize (first_fit m asize bs)"
  by (induction bs) (auto simp: first_fit_def)

lemma find_fit_from_lists:
  assumes "\<forall>i. k \<le> i \<and> i < list_length \<longrightarrow> free_list (mem s) (seg_list s i) (ls i)"
  shows "find_fit_from s asize k =
           Some (first_fit (mem s) asize (concat (map ls [k ..< list_length])))"
  using assms
proof (induction s asize k rule: find_fit_from.induct)
  case (1 s asize index)
  show ?case
  proof (cases "index < list_length")
    case False
    then show ?thesis
      by (subst find_fit_from.simps) (simp add: first_fit_def)
  next
    case True
    have here: "free_list (mem s) (seg_list s index) (ls index)"
      using "1.prems" True by simp
    have inner: "find_fit_list (mem s) asize (seg_list s index) = Some (first_fit (mem s) asize (ls index))"
      using here by (rule find_fit_list_free_list)
    have nn: "0 \<notin> set (ls index)"
      using here by (rule free_list_nonnull)
    have upt: "[index ..< list_length] = index # [Suc index ..< list_length]"
      using True by (simp add: upt_conv_Cons)
    show ?thesis
    proof (cases "first_fit (mem s) asize (ls index) = 0")
      case False
      then have "\<exists>b \<in> set (ls index). fits (mem s) asize b"
        using first_fit_null_iff [OF nn] by blast
      then show ?thesis
        using False True inner
        by (subst find_fit_from.simps) (simp add: upt first_fit_append)
    next
      case z: True
      then have none: "\<not> (\<exists>b \<in> set (ls index). fits (mem s) asize b)"
        using first_fit_null_iff [OF nn] by blast
      have "find_fit_from s asize (Suc index) =
          Some (first_fit (mem s) asize (concat (map ls [Suc index ..< list_length])))"
        using "1.IH" [OF True inner] z "1.prems" by simp
      then show ?thesis
        using z True inner none
        by (subst find_fit_from.simps) (simp add: upt first_fit_append)
    qed
  qed
qed

text \<open>
  C5. With each list from class \<open>find_index asize\<close> upwards a proper list \<open>ls i\<close>,
  \<open>find_fit\<close> returns, and what it returns is the first block that fits (free and of size
  at least \<open>asize\<close>) in the lists of the classes \<open>find_index asize\<close>, \<dots>, 14 taken in
  this order, each list from its head; it returns \<open>NULL\<close> exactly when no listed block of
  these classes fits.
\<close>

theorem find_fit_first_fit:
  assumes "\<forall>i. find_index asize \<le> i \<and> i < list_length \<longrightarrow> free_list (mem s) (seg_list s i) (ls i)"
  shows "find_fit s asize =
           Some (first_fit (mem s) asize (concat (map ls [find_index asize ..< list_length])))
         \<and> (find_fit s asize = Some 0 \<longleftrightarrow>
              \<not> (\<exists>b \<in> set (concat (map ls [find_index asize ..< list_length])). fits (mem s) asize b))"
proof -
  let ?bs = "concat (map ls [find_index asize ..< list_length])"
  have r: "find_fit s asize = Some (first_fit (mem s) asize ?bs)"
    unfolding find_fit_def using assms by (rule find_fit_from_lists)
  have "0 \<notin> set ?bs"
    using assms free_list_nonnull by fastforce
  then have "first_fit (mem s) asize ?bs = 0 \<longleftrightarrow> \<not> (\<exists>b \<in> set ?bs. fits (mem s) asize b)"
    by (rule first_fit_null_iff)
  with r show ?thesis by simp
qed

theorem find_fit_first_fit_witness:
  "find_fit after_init 32 = Some 0x10008"
proof -
  have h: "\<forall>i. find_index 32 \<le> i \<and> i < list_length \<longrightarrow>
      free_list (mem after_init) (seg_list after_init i) ((\<lambda>i. if i = 10 then [0x10008] else []) i)"
    by (simp add: after_init_def load64_store64_same load64_store64_other)
  have l: "concat (map (\<lambda>i. if i = 10 then [0x10008] else []) [find_index 32 ..< list_length])
      = [0x10008 :: addr]"
    by (simp add: find_index_def list_bounds list_length_def upt_rec)
  have f: "fits (mem after_init) 32 0x10008"
    by (simp add: fits_def after_init_def load64_store64_same load64_store64_other
        extract_alloc_def extract_size_def alloc_mask_def size_mask_def)
  show ?thesis
    using find_fit_first_fit [OF h] f by (simp add: l first_fit_def)
qed

section \<open>Zeroed allocation\<close>

lemma find_fit_returns:
  assumes "\<forall>i<list_length. \<exists>bs. free_list (mem s) (seg_list s i) bs"
  shows "\<exists>b. find_fit s asize = Some b"
proof -
  from assms obtain ls where "\<forall>i<list_length. free_list (mem s) (seg_list s i) (ls i)"
    by metis
  then have "\<forall>i. find_index asize \<le> i \<and> i < list_length \<longrightarrow> free_list (mem s) (seg_list s i) (ls i)"
    by simp
  from find_fit_first_fit [OF this] show ?thesis by blast
qed

lemma malloc_returns:
  assumes "heap_start s \<noteq> 0" "\<forall>i<list_length. \<exists>bs. free_list (mem s) (seg_list s i) bs"
  shows "\<exists>s' p. malloc s sz = Some (s', p)"
proof -
  obtain b where "find_fit s (round_up (sz + wsize) dsize) = Some b"
    using find_fit_returns [OF assms(2)] by blast
  then show ?thesis
    using assms(1) by (simp add: malloc_def Let_def split: prod.splits)
qed

lemma mult_overflow_detected:
  assumes "elements \<noteq> 0" "2 ^ 64 \<le> unat elements * unat sz"
  shows "(elements * sz) div elements \<noteq> (sz :: 64 word)"
proof
  assume eq: "(elements * sz) div elements = sz"
  have pos: "0 < unat elements"
    using assms(1) by (simp add: unat_gt_0)
  have "unat sz = unat (elements * sz) div unat elements"
    using eq by (metis unat_div)
  then have "unat sz * unat elements \<le> unat (elements * sz)"
    by simp
  moreover have "unat (elements * sz) < 2 ^ 64"
    by (rule order_less_le_trans [OF unsigned_less]) simp
  ultimately show False
    using assms(2) by (simp add: mult.commute)
qed

lemma memset_zero:
  "memset s p 0 n = Some s' \<Longrightarrow> i < n \<Longrightarrow> mem s' (p + i) = 0"
  by (auto simp add: memset_def split: if_splits)

text \<open>
  What \<open>calloc\<close> does when it returns: \<open>NULL\<close> with the state as it was for a count of 0
  or a product that does not fit in 64 bits, and otherwise \<open>NULL\<close> or a pointer to
  \<open>elements * sz\<close> zero bytes.
\<close>

lemma calloc_null_on_overflow:
  assumes "elements = 0 \<or> 2 ^ 64 \<le> unat elements * unat sz"
  shows "calloc s elements sz = Inr (s, 0)"
proof -
  from assms have "elements = 0 \<or> (elements * sz) div elements \<noteq> sz"
    using mult_overflow_detected by blast
  then show ?thesis
    by (auto simp: calloc_def Let_def)
qed

lemma calloc_zeroed:
  assumes "calloc s elements sz = Inr (s', p)" "p \<noteq> 0" "i < elements * sz"
  shows "mem s' (p + i) = 0"
  using assms
  by (auto simp: calloc_def Let_def memset_zero split: if_splits option.splits)
section \<open>Running the allocator on a concrete heap\<close>

declare find_fit_from.simps [simp del] check_acyclic_all.simps [simp del]
  for_each_list.simps [simp del] count_lists_from.simps [simp del]

lemmas mm_defs = wsize_def dsize_def min_block_size_def chunksize_def alloc_mask_def prev_alloc_mask_def
  size_mask_def max_sz_def round_up_def pack_def extract_size_def extract_alloc_def extract_prev_alloc_def
  header_def set_header_def block_next_def block_prev_def set_next_def set_prev_def get_size_def
  payload_to_header_def header_to_payload_def header_to_footer_def footer_to_header_def get_payload_size_def
  get_alloc_def get_prev_alloc_def write_epilogue_def write_block_def find_next_def update_next_prev_alloc_def
  find_prev_footer_def find_prev_def list_length_def list_bounds find_index_def
  set_seg_list_def remove_from_list_def add_to_list_def coalesce_block_def extend_heap_def split_block_def
  find_fit_def clear_seg_list_def mm_init_def malloc_def free_def realloc_def calloc_def mem_sbrk_def
  mem_heap_lo_def mem_heap_hi_def Let_def
  load64_store64_same load64_store64_other store64_store64_same load64_zero

lemma find_fit_list_NULL: "find_fit_list m asize 0 = Some 0"
  by (subst find_fit_list.simps) simp

lemma find_fit_list_step: "block \<noteq> 0 \<Longrightarrow> find_fit_list m asize block =
        (if \<not> extract_alloc (load64 m block) \<and> asize \<le> extract_size (load64 m block)
         then Some block
         else find_fit_list m asize (load64 m (block + 8)))"
  by (subst find_fit_list.simps) simp

lemma mm_init_boot: "mm_init boot = (after_init, True)"
  by (simp add: mm_defs boot_def after_init_def) (auto simp: fun_eq_iff)

lemma unat_off:
  assumes "d \<le> d + 7" "i < 8"
  shows "unat (d + i) = unat d + unat (i::64 word)"
proof -
  have "unat d + unat (7::64 word) < 2 ^ 64"
    using assms(1) by (simp add: no_plus_overflow_unat_size word_size)
  moreover have "unat i < 8"
    using assms(2) by (simp add: word_less_nat_alt)
  ultimately have "unat d + unat i < 2 ^ LENGTH(64)"
    by simp
  then show ?thesis
    by (simp only: unat_add_lem)
qed

lemma word_off_ge: "n \<le> d \<Longrightarrow> d \<le> d + 7 \<Longrightarrow> i < 8 \<Longrightarrow> \<not> d + i < (n::64 word)"
  by (simp add: word_less_nat_alt word_le_nat_alt unat_off)

lemma word_off_lt: "d + 7 < n \<Longrightarrow> d \<le> d + 7 \<Longrightarrow> i < 8 \<Longrightarrow> d + i < (n::64 word)"
  using unat_off [of d 7] unat_off [of d i]
  by (simp add: word_less_nat_alt word_le_nat_alt)

lemma load64_memcpy_outside:
  assumes "n \<le> a - dst" "a - dst \<le> a - dst + 7"
  shows "load64 (memcpy m dst src n) a = load64 m a"
proof -
  have k: "a + i - dst = (a - dst) + i" for i
    by simp
  have "\<not> (a - dst) + i < n" if "i < 8" for i
    using word_off_ge [OF assms that] .
  then have "memcpy m dst src n (a + i) = m (a + i)" if "i < 8" for i
    unfolding memcpy_def k using that by simp
  from this[of 0] this[of 1] this[of 2] this[of 3] this[of 4] this[of 5] this[of 6] this[of 7]
  show ?thesis by (simp add: load64_def)
qed

lemma load64_memcpy_inside:
  assumes "a - dst + 7 < n" "a - dst \<le> a - dst + 7"
  shows "load64 (memcpy m dst src n) a = load64 m (src + (a - dst))"
proof -
  have k: "a + i - dst = (a - dst) + i" for i
    by simp
  have "(a - dst) + i < n" if "i < 8" for i
    using word_off_lt [OF assms that] .
  then have "memcpy m dst src n (a + i) = m (src + (a - dst) + i)" if "i < 8" for i
    unfolding memcpy_def k using that by (simp add: add.assoc)
  from this[of 0] this[of 1] this[of 2] this[of 3] this[of 4] this[of 5] this[of 6] this[of 7]
  show ?thesis by (simp add: load64_def)
qed

lemmas op_defs = wsize_def dsize_def min_block_size_def chunksize_def alloc_mask_def prev_alloc_mask_def
  size_mask_def max_sz_def round_up_def pack_def extract_size_def extract_alloc_def extract_prev_alloc_def
  header_def set_header_def block_next_def block_prev_def set_next_def set_prev_def get_size_def
  payload_to_header_def header_to_payload_def header_to_footer_def footer_to_header_def get_payload_size_def
  get_alloc_def get_prev_alloc_def write_epilogue_def write_block_def find_next_def update_next_prev_alloc_def
  find_prev_footer_def find_prev_def list_length_def list_bounds find_index_def
  set_seg_list_def remove_from_list_def add_to_list_def coalesce_block_def extend_heap_def split_block_def
  clear_seg_list_def mem_sbrk_def mem_heap_lo_def mem_heap_hi_def Let_def
  load64_store64_same load64_store64_other store64_store64_same load64_zero

lemma after_init_facts:
  "heap_start after_init = 0x10008" "mem_brk after_init = 0x11010"
  "mem_start_brk after_init = 0x10000" "mem_max_addr after_init = 0x110000"
  "seg_list after_init = (\<lambda>_. 0)(10 := 0x10008)"
  "load64 (mem after_init) 0x10000 = 3"
  "load64 (mem after_init) 0x10008 = 0x1002"
  "load64 (mem after_init) 0x10010 = 0"
  "load64 (mem after_init) 0x10018 = 0"
  "load64 (mem after_init) 0x11000 = 0x1002"
  "load64 (mem after_init) 0x11008 = 1"
  by (simp_all add: after_init_def load64_store64_same load64_store64_other load64_zero)

lemma free_list_after_init:
  "\<forall>i. k \<le> i \<and> i < list_length \<longrightarrow>
      free_list (mem after_init) (seg_list after_init i) ((\<lambda>i. if i = 10 then [0x10008] else []) i)"
  by (simp add: after_init_facts)

lemma find_fit_after_init:
  "find_fit after_init 32 = Some 0x10008" "find_fit after_init 2032 = Some 0x10008"
  using find_fit_from_lists [OF free_list_after_init, where k = "find_index 32" and asize = 32]
    find_fit_from_lists [OF free_list_after_init, where k = "find_index 2032" and asize = 2032]
  by (simp_all add: find_fit_def find_index_def list_bounds list_length_def upt_rec first_fit_def
      fits_def after_init_facts extract_alloc_def extract_size_def alloc_mask_def size_mask_def)

lemma malloc_after_init: "malloc after_init 2024 = Some (after_malloc, 0x10010)"
  by (simp add: malloc_def op_defs after_init_facts find_fit_after_init after_malloc_def)

lemma after_malloc_facts:
  "heap_start after_malloc = 0x10008" "mem_brk after_malloc = 0x11010"
  "mem_start_brk after_malloc = 0x10000" "mem_max_addr after_malloc = 0x110000"
  "seg_list after_malloc = (\<lambda>_. 0)(10 := 0, 9 := 0x107F8)"
  "load64 (mem after_malloc) 0x10000 = 3"
  "load64 (mem after_malloc) 0x10008 = 0x7F3"
  "load64 (mem after_malloc) 0x107F8 = 0x812"
  "load64 (mem after_malloc) 0x10800 = 0"
  "load64 (mem after_malloc) 0x10808 = 0"
  "load64 (mem after_malloc) 0x11000 = 0x812"
  "load64 (mem after_malloc) 0x11008 = 1"
  by (simp_all add: after_malloc_def after_init_def load64_store64_same load64_store64_other load64_zero)

lemma find_fit_after_malloc: "find_fit after_malloc 32 = Some 0x107F8"
proof -
  have "\<forall>i. find_index 32 \<le> i \<and> i < list_length \<longrightarrow>
      free_list (mem after_malloc) (seg_list after_malloc i) ((\<lambda>i. if i = 9 then [0x107F8] else []) i)"
    by (simp add: after_malloc_facts)
  from find_fit_from_lists [OF this, of 32] show ?thesis
    by (simp add: find_fit_def find_index_def list_bounds list_length_def upt_rec first_fit_def fits_def
        after_malloc_facts extract_alloc_def extract_size_def alloc_mask_def size_mask_def)
qed

lemma inner_malloc: "malloc after_malloc 0xFFFFFFFFFFFFFFF8 = Some (after_inner_malloc, 0x10800)"
  by (simp add: malloc_def op_defs after_malloc_facts find_fit_after_malloc after_inner_malloc_def)

lemma after_inner_malloc_facts:
  "heap_start after_inner_malloc = 0x10008" "mem_brk after_inner_malloc = 0x11010"
  "mem_start_brk after_inner_malloc = 0x10000" "mem_max_addr after_inner_malloc = 0x110000"
  "seg_list after_inner_malloc = (\<lambda>_. 0)(10 := 0, 9 := 0, 8 := 0x10818)"
  "load64 (mem after_inner_malloc) 0x10000 = 3"
  "load64 (mem after_inner_malloc) 0x10008 = 0x7F3"
  "load64 (mem after_inner_malloc) 0x107F8 = 0x23"
  "load64 (mem after_inner_malloc) 0x10818 = 0x7F2"
  "load64 (mem after_inner_malloc) 0x10820 = 0"
  "load64 (mem after_inner_malloc) 0x10828 = 0"
  "load64 (mem after_inner_malloc) 0x11000 = 0x7F2"
  "load64 (mem after_inner_malloc) 0x11008 = 1"
  by (simp_all add: after_inner_malloc_def after_malloc_facts load64_store64_same load64_store64_other)

text \<open>The 2024 bytes that \<open>realloc\<close> copies lie in the memory of the heap, source and target.\<close>

lemma realloc_copy_mapped:
  "mapped after_inner_malloc 0x10010 2024 \<and> mapped after_inner_malloc 0x10800 2024"
  by (simp add: mapped_def after_inner_malloc_facts)

lemma realloc_steps:
  "realloc after_malloc 0x10010 0xFFFFFFFFFFFFFFF8 = Some (free after_memcpy 0x10010, 0x10800)"
  by (simp add: realloc_def inner_malloc Let_def payload_to_header_def get_payload_size_def get_size_def
      header_def extract_size_def size_mask_def wsize_def after_inner_malloc_facts after_memcpy_def)

lemma after_memcpy_facts:
  "heap_start after_memcpy = 0x10008" "mem_brk after_memcpy = 0x11010"
  "mem_start_brk after_memcpy = 0x10000" "mem_max_addr after_memcpy = 0x110000"
  "seg_list after_memcpy = (\<lambda>_. 0)(10 := 0, 9 := 0, 8 := 0x10818)"
  "load64 (mem after_memcpy) 0x10000 = 3"
  "load64 (mem after_memcpy) 0x10008 = 0x7F3"
  "load64 (mem after_memcpy) 0x107F8 = 0x23"
  "load64 (mem after_memcpy) 0x11000 = 0x7F2"
  "load64 (mem after_memcpy) 0x11008 = 1"
  by (simp_all add: after_memcpy_def after_inner_malloc_facts load64_memcpy_outside)

lemma free_after_memcpy: "free after_memcpy 0x10010 = after_realloc"
  by (simp add: free_def op_defs after_memcpy_facts after_realloc_def)

lemma realloc_after_malloc:
  "realloc after_malloc 0x10010 0xFFFFFFFFFFFFFFF8 = Some (after_realloc, 0x10800)"
  by (simp add: realloc_steps free_after_memcpy)

lemma after_realloc_facts:
  "heap_start after_realloc = 0x10008" "mem_brk after_realloc = 0x11010"
  "mem_start_brk after_realloc = 0x10000" "mem_max_addr after_realloc = 0x110000"
  "seg_list after_realloc = (\<lambda>_. 0)(10 := 0, 9 := 0, 8 := 0x10008)"
  "load64 (mem after_realloc) 0x10000 = 3"
  "load64 (mem after_realloc) 0x10008 = 0x7F2"
  "load64 (mem after_realloc) 0x10010 = 0x10818"
  "load64 (mem after_realloc) 0x10018 = 0"
  "load64 (mem after_realloc) 0x107F0 = 0x7F2"
  "load64 (mem after_realloc) 0x107F8 = 0x21"
  "load64 (mem after_realloc) 0x10818 = 0"
  "load64 (mem after_realloc) 0x10820 = 0"
  "load64 (mem after_realloc) 0x10828 = 0x10008"
  "load64 (mem after_realloc) 0x11008 = 1"
  by (simp_all add: after_realloc_def after_memcpy_def after_inner_malloc_def after_malloc_def
      after_init_def load64_store64_same load64_store64_other load64_memcpy_outside
      load64_memcpy_inside load64_zero)

section \<open>Running the checker\<close>

text \<open>One turn of each loop of the checker, for a block that is known.\<close>

lemma check_payload_align_from_step:
  "get_size s block > 0 \<Longrightarrow> check_payload_align_from s block =
     (if get_alloc s block \<and> sint (header_to_payload block) mod 16 \<noteq> 0 then Some False
      else check_payload_align_from s (find_next s block))"
  "get_size s block = 0 \<Longrightarrow> check_payload_align_from s block = Some True"
  by (subst check_payload_align_from.simps, simp)+

lemma check_acyclic_loop_step:
  "turtle \<noteq> rabbit \<Longrightarrow> check_acyclic_loop s turtle rabbit =
     (if rabbit = 0 \<or> block_next s rabbit = 0 then Some True
      else check_acyclic_loop s (block_next s turtle) (block_next s (block_next s rabbit)))"
  "check_acyclic_loop s turtle turtle = Some False"
  by (subst check_acyclic_loop.simps, simp)+

lemma count_list_step:
  "block1 \<noteq> 0 \<Longrightarrow> count_list s block1 len = count_list s (block_next s block1) (len + 1)"
  "count_list s 0 len = Some len"
  by (subst count_list.simps, simp)+

lemma count_free_from_step:
  "get_size s block2 > 0 \<Longrightarrow> count_free_from s block2 res =
     count_free_from s (find_next s block2) (if \<not> get_alloc s block2 then res + 1 else res)"
  "get_size s block2 = 0 \<Longrightarrow> count_free_from s block2 res = Some res"
  by (subst count_free_from.simps, simp)+

lemma check_no_consecutive_free_blocks_from_step:
  "get_size s block > 0 \<Longrightarrow> check_no_consecutive_free_blocks_from s block =
     (if get_size s (find_next s block) > 0 \<and> \<not> get_alloc s block \<and> \<not> get_alloc s (find_next s block)
      then Some False
      else check_no_consecutive_free_blocks_from s (find_next s block))"
  "get_size s block = 0 \<Longrightarrow> check_no_consecutive_free_blocks_from s block = Some True"
  by (subst check_no_consecutive_free_blocks_from.simps, simp add: Let_def)+

lemma check_range_from_step:
  "get_size s block > 0 \<Longrightarrow> check_range_from s block =
     (if out_of_range s block then Some False else check_range_from s (find_next s block))"
  "get_size s block = 0 \<Longrightarrow> check_range_from s block = Some True"
  by (subst check_range_from.simps, simp)+

lemma check_free_list_consistent_list_step:
  "block \<noteq> 0 \<Longrightarrow> check_free_list_consistent_list s block =
     (if block_next s block \<noteq> 0 \<and> block_prev s (block_next s block) \<noteq> block then Some False
      else check_free_list_consistent_list s (block_next s block))"
  "check_free_list_consistent_list s 0 = Some True"
  by (subst check_free_list_consistent_list.simps, simp)+

lemma check_free_list_size_range_list_step:
  "block \<noteq> 0 \<Longrightarrow> check_free_list_size_range_list s lo hi block =
     (if get_size s block < lo \<or> get_size s block \<ge> hi then Some False
      else check_free_list_size_range_list s lo hi (block_next s block))"
  "check_free_list_size_range_list s lo hi 0 = Some True"
  by (subst check_free_list_size_range_list.simps, simp)+

lemma check_free_list_pointer_range_list_step:
  "block \<noteq> 0 \<Longrightarrow> check_free_list_pointer_range_list s block =
     (if block_prev s block \<noteq> 0 \<and> out_of_range s (block_prev s block) then Some False
      else if block_next s block \<noteq> 0 \<and> out_of_range s (block_next s block) then Some False
      else check_free_list_pointer_range_list s (block_next s block))"
  "check_free_list_pointer_range_list s 0 = Some True"
  by (subst check_free_list_pointer_range_list.simps, simp)+

lemma check_curr_next_consistency_from_step:
  "get_size s block > 0 \<Longrightarrow> check_curr_next_consistency_from s block =
     (if get_size s (find_next s block) > 0
         \<and> get_prev_alloc s (find_next s block) \<noteq> get_alloc s block
      then Some False
      else check_curr_next_consistency_from s (find_next s block))"
  "get_size s block = 0 \<Longrightarrow> check_curr_next_consistency_from s block = Some True"
  by (subst check_curr_next_consistency_from.simps, simp add: Let_def)+

lemma check_header_footer_consistency_from_step:
  "get_size s block > 0 \<Longrightarrow> check_header_footer_consistency_from s block =
     (if \<not> get_alloc s block \<and> header s block \<noteq> load64 (mem s) (header_to_footer s block)
      then Some False
      else check_header_footer_consistency_from s (find_next s block))"
  "get_size s block = 0 \<Longrightarrow> check_header_footer_consistency_from s block = Some True"
  by (subst check_header_footer_consistency_from.simps, simp)+

lemmas check_steps =
  check_payload_align_from_step check_acyclic_loop_step count_list_step count_free_from_step
  check_no_consecutive_free_blocks_from_step check_range_from_step
  check_free_list_consistent_list_step check_free_list_size_range_list_step
  check_free_list_pointer_range_list_step check_curr_next_consistency_from_step
  check_header_footer_consistency_from_step

lemmas check_defs =
  check_acyclic_all.simps for_each_list.simps count_lists_from.simps
  check_payload_align_def check_acyclic_def check_no_block_loss_def
  check_no_consecutive_free_blocks_def check_epi_prologue_def out_of_range_def check_range_def
  check_free_list_consistent_def list_lo_def list_hi_def check_free_list_size_range_def
  check_free_list_pointer_range_def check_curr_next_consistency_def
  check_header_footer_consistency_def

lemmas read_defs = wsize_def dsize_def min_block_size_def alloc_mask_def prev_alloc_mask_def
  size_mask_def extract_size_def extract_alloc_def extract_prev_alloc_def
  header_def block_next_def block_prev_def get_size_def
  header_to_payload_def header_to_footer_def get_alloc_def get_prev_alloc_def find_next_def
  list_length_def list_bounds mem_heap_lo_def mem_heap_hi_def Let_def

lemma checks_after_realloc:
  "check_payload_align after_realloc = Some True"
  "check_acyclic_all after_realloc 0 True = Some True"
  "check_epi_prologue after_realloc"
  "check_range after_realloc = Some True"
  "check_free_list_consistent after_realloc = Some True"
  "check_free_list_size_range after_realloc = Some False"
  "check_free_list_pointer_range after_realloc = Some True"
  "check_header_footer_consistency after_realloc = Some True"
  "check_curr_next_consistency after_realloc = Some True"
  "check_no_consecutive_free_blocks after_realloc = Some True"
  "check_no_block_loss after_realloc = Some False"
  by (simp add: check_defs check_steps read_defs after_realloc_facts)+

lemma checks_after_init:
  "check_payload_align after_init = Some True"
  "check_acyclic_all after_init 0 True = Some True"
  "check_epi_prologue after_init"
  "check_range after_init = Some True"
  "check_free_list_consistent after_init = Some True"
  "check_free_list_size_range after_init = Some True"
  "check_free_list_pointer_range after_init = Some True"
  "check_header_footer_consistency after_init = Some True"
  "check_curr_next_consistency after_init = Some True"
  "check_no_consecutive_free_blocks after_init = Some True"
  "check_no_block_loss after_init = Some True"
  by (simp add: check_defs check_steps read_defs after_init_facts)+

lemma mm_checkheap_after_init: "mm_checkheap after_init = Some True"
  by (simp add: mm_checkheap_def checks_after_init)

lemma checks_after_malloc:
  "check_payload_align after_malloc = Some True"
  "check_acyclic_all after_malloc 0 True = Some True"
  "check_epi_prologue after_malloc"
  "check_range after_malloc = Some True"
  "check_free_list_consistent after_malloc = Some True"
  "check_free_list_size_range after_malloc = Some True"
  "check_free_list_pointer_range after_malloc = Some True"
  "check_header_footer_consistency after_malloc = Some True"
  "check_curr_next_consistency after_malloc = Some True"
  "check_no_consecutive_free_blocks after_malloc = Some True"
  "check_no_block_loss after_malloc = Some True"
  by (simp add: check_defs check_steps read_defs after_malloc_facts)+

lemma mm_checkheap_after_malloc: "mm_checkheap after_malloc = Some True"
  by (simp add: mm_checkheap_def checks_after_malloc)

lemma mm_checkheap_after_realloc: "mm_checkheap after_realloc = Some False"
  by (simp add: mm_checkheap_def checks_after_realloc)

text \<open>
  C1. After a successful \<open>mm_init\<close>, \<open>p = malloc(2024)\<close> and then
  \<open>realloc(p, 2 ^ 64 - 8)\<close> return, and the checker, which accepted the heap before the
  call of \<open>realloc\<close>, rejects the heap that \<open>realloc\<close> leaves.
\<close>

theorem checkheap_false_after_realloc:
  "mm_init boot = (after_init, True)
   \<and> malloc after_init 2024 = Some (after_malloc, 0x10010)
   \<and> mm_checkheap after_malloc = Some True
   \<and> realloc after_malloc 0x10010 0xFFFFFFFFFFFFFFF8 = Some (after_realloc, 0x10800)
   \<and> mm_checkheap after_realloc = Some False"
  by (simp only: mm_init_boot malloc_after_init mm_checkheap_after_malloc realloc_after_malloc
      mm_checkheap_after_realloc simp_thms)

text \<open>
  C2. On the fresh heap \<open>malloc(2 ^ 64 - 8)\<close> returns the pointer \<open>0x10010\<close>, not
  \<open>NULL\<close>, to a block of 32 bytes: a payload of 24 bytes for a request of
  \<open>2 ^ 64 - 8\<close>.
\<close>

theorem malloc_wrapped_request:
  "mm_init boot = (after_init, True)
   \<and> (\<exists>s. malloc after_init 0xFFFFFFFFFFFFFFF8 = Some (s, 0x10010)
          \<and> get_size s (payload_to_header 0x10010) = 32
          \<and> get_size s (payload_to_header 0x10010) - 8 < 0xFFFFFFFFFFFFFFF8)"
  by (simp add: mm_init_boot malloc_def op_defs after_init_facts find_fit_after_init)

text \<open>
  C7. \<open>p = 0x10010\<close> is live with a payload of 2024 bytes; \<open>realloc(p, 2 ^ 64 - 8)\<close>
  returns \<open>q = 0x10800\<close>, and the byte at \<open>q + 40\<close>, one of the first
  \<open>min (2 ^ 64 - 8) 2024\<close> bytes, is 8 where the byte at \<open>p + 40\<close> was 0 before the call.
\<close>

theorem realloc_copy_clobbered:
  "mm_init boot = (after_init, True)
   \<and> malloc after_init 2024 = Some (after_malloc, 0x10010)
   \<and> get_payload_size after_malloc (payload_to_header 0x10010) = 2024
   \<and> realloc after_malloc 0x10010 0xFFFFFFFFFFFFFFF8 = Some (after_realloc, 0x10800)
   \<and> mem after_malloc (0x10010 + 40) = 0
   \<and> mem after_realloc (0x10800 + 40) = 8"
proof -
  have a: "get_payload_size after_malloc (payload_to_header 0x10010) = 2024"
    by (simp add: get_payload_size_def payload_to_header_def read_defs after_malloc_facts)
  have b: "mem after_malloc (0x10010 + 40) = 0"
    by (simp add: after_malloc_def after_init_def store64_apply)
  have c: "mem after_realloc (0x10800 + 40) = 8"
    by (simp add: after_realloc_def store64_apply)
  show ?thesis
    by (simp only: mm_init_boot malloc_after_init realloc_after_malloc a b c simp_thms)
qed

text \<open>
  C8. On the fresh heap \<open>calloc(1, 2 ^ 64 - 8)\<close> has a count other than 0 and a product
  that fits in 64 bits, so it goes on to \<open>malloc(2 ^ 64 - 8)\<close>, which returns the pointer
  \<open>0x10010\<close> to a block of 32 bytes; \<open>memset\<close> of \<open>2 ^ 64 - 8\<close> bytes from there runs out
  of the memory of the heap. \<open>calloc\<close> returns neither \<open>NULL\<close> nor a pointer to zeroed
  bytes: it faults.
\<close>

theorem calloc_wrapped_request_faults:
  "mm_init boot = (after_init, True)
   \<and> unat (1 :: 64 word) * unat (0xFFFFFFFFFFFFFFF8 :: 64 word) < 2 ^ 64
   \<and> (\<exists>s. malloc after_init (1 * 0xFFFFFFFFFFFFFFF8) = Some (s, 0x10010)
          \<and> get_size s (payload_to_header 0x10010) = 32
          \<and> memset s 0x10010 0 (1 * 0xFFFFFFFFFFFFFFF8) = None)
   \<and> calloc after_init 1 0xFFFFFFFFFFFFFFF8 = Inl Fault"
proof -
  define s where "s = split_block after_init 0x10008 32"
  have m: "malloc after_init 0xFFFFFFFFFFFFFFF8 = Some (s, 0x10010)"
    by (simp add: malloc_def s_def round_up_def wsize_def dsize_def min_block_size_def Let_def
        find_fit_after_init header_to_payload_def after_init_facts)
  have f: "mem_start_brk s = 0x10000" "mem_max_addr s = 0x110000"
    by (simp_all add: s_def op_defs after_init_facts)
  have g: "get_size s (payload_to_header 0x10010) = 32"
    by (simp add: s_def op_defs after_init_facts)
  have ms: "memset s 0x10010 0 0xFFFFFFFFFFFFFFF8 = None"
    by (simp add: memset_def mapped_def f)
  have c: "calloc after_init 1 0xFFFFFFFFFFFFFFF8 = Inl Fault"
    by (simp add: calloc_def Let_def m ms)
  show ?thesis
    using m g ms c by (simp add: mm_init_boot)
qed

section \<open>Addresses as natural numbers\<close>

lemma unat_w64: "n < 2 ^ 64 \<Longrightarrow> unat (w64 n) = n"
  by (simp add: w64_def unat_of_nat take_bit_nat_eq_self)

lemma w64_unat: "w64 (unat w) = w"
  by (simp add: w64_def)

lemma w64_inj: "a < 2 ^ 64 \<Longrightarrow> b < 2 ^ 64 \<Longrightarrow> w64 a = w64 b \<longleftrightarrow> a = b"
  by (metis unat_w64)

lemma w64_0: "w64 0 = 0"
  by (simp add: w64_def)

lemma w64_eq_0: "a < 2 ^ 64 \<Longrightarrow> w64 a = 0 \<longleftrightarrow> a = 0"
  using w64_inj [of a 0] by (simp add: w64_0)

lemma w64_add: "w64 a + w64 b = w64 (a + b)"
  by (simp add: w64_def)

lemma w64_add_numeral: "w64 a + numeral n = w64 (a + numeral n)"
  by (simp add: w64_def)

lemma w64_sub: "b \<le> a \<Longrightarrow> w64 a - w64 b = w64 (a - b)"
  by (simp add: w64_def)

lemma w64_sub_numeral: "numeral n \<le> a \<Longrightarrow> w64 a - numeral n = w64 (a - numeral n)"
  by (simp add: w64_def)

lemma w64_numeral: "w64 (numeral n) = numeral n"
  by (simp add: w64_def)

lemma w64_le: "a < 2 ^ 64 \<Longrightarrow> b < 2 ^ 64 \<Longrightarrow> w64 a \<le> w64 b \<longleftrightarrow> a \<le> b"
  by (simp add: word_le_nat_alt unat_w64)

lemma w64_less: "a < 2 ^ 64 \<Longrightarrow> b < 2 ^ 64 \<Longrightarrow> w64 a < w64 b \<longleftrightarrow> a < b"
  by (simp add: word_less_nat_alt unat_w64)

lemma word_apart:
  assumes "a < 2 ^ 63" "b < 2 ^ 63" "a + 8 \<le> b \<or> b + 8 \<le> a"
  shows "8 \<le> w64 b - w64 a" "8 \<le> w64 a - w64 b"
proof -
  have a: "unat (w64 a) = a" and b: "unat (w64 b) = b"
    using assms(1,2) by (simp_all add: unat_w64)
  show "8 \<le> w64 b - w64 a" "8 \<le> w64 a - w64 b"
    using assms by (auto simp: word_le_nat_alt unat_sub_if' a b)
qed

text \<open>Words at addresses that are multiples of 8 do not overlap.\<close>

lemma load64_store64_w64:
  assumes "a < 2 ^ 63" "b < 2 ^ 63" "a mod 8 = 0" "b mod 8 = 0"
  shows "load64 (store64 m (w64 a) v) (w64 b) = (if a = b then v else load64 m (w64 b))"
proof (cases "a = b")
  case True
  then show ?thesis by (simp add: load64_store64_same)
next
  case False
  then have "a + 8 \<le> b \<or> b + 8 \<le> a"
    using assms(3,4) by presburger
  from word_apart [OF assms(1,2) this] False show ?thesis
    by (simp add: load64_store64_other)
qed

section \<open>Tag words\<close>

lemma mask15: "(15 :: 64 word) = mask 4"
  by (simp add: mask_eq_exp_minus_1)

lemma low_bits_clear:
  assumes "(w :: 64 word) AND 15 = 0" "n < 4"
  shows "\<not> bit w n"
proof
  assume "bit w n"
  then have "bit (w AND mask 4) n"
    using assms(2) by (simp add: bit_simps)
  with assms(1) show False by (simp add: mask15)
qed

lemma bit_small:
  "bit (1 :: int) n \<longleftrightarrow> n = 0"
  "bit (2 :: int) n \<longleftrightarrow> n = 1"
  "bit (3 :: int) n \<longleftrightarrow> n < 2"
  "bit (1 :: 64 word) n \<longleftrightarrow> n = 0"
proof -
  show "bit (1 :: 64 word) n \<longleftrightarrow> n = 0"
    by (simp add: bit_1_iff)
  show "bit (1 :: int) n \<longleftrightarrow> n = 0"
    by (simp add: bit_1_iff)
  show "bit (2 :: int) n \<longleftrightarrow> n = 1"
    by (auto simp add: bit_2_iff)
  have m3: "mask 2 = (3 :: int)"
    by (simp add: mask_eq_exp_minus_1)
  show "bit (3 :: int) n \<longleftrightarrow> n < 2"
    unfolding m3 [symmetric] by (auto simp add: bit_mask_iff)
qed

lemma extract_pack:
  assumes "(w :: 64 word) AND 15 = 0"
  shows "extract_size (pack w al pa) = w"
    and "extract_alloc (pack w al pa) = al"
    and "extract_prev_alloc (pack w al pa) = pa"
proof -
  have lo: "\<not> bit w n" if "n < 4" for n
    using assms that by (rule low_bits_clear)
  have "bit (pack w al pa AND NOT (mask 4)) n = bit w n" for n
    using lo [of n]
    by (cases al; cases pa)
      (auto simp add: pack_def alloc_mask_def prev_alloc_mask_def bit_and_iff bit_or_iff bit_not_iff
        bit_mask_iff bit_small dest: bit_imp_possible_bit)
  then show "extract_size (pack w al pa) = w"
    unfolding extract_size_def size_mask_def mask15 by (intro bit_eqI) simp
  have "bit (pack w al pa) 0 \<longleftrightarrow> al"
    using lo [of 0]
    by (cases al; cases pa)
      (auto simp add: pack_def alloc_mask_def prev_alloc_mask_def bit_or_iff bit_small)
  moreover have "pack w al pa AND 1 \<noteq> 0 \<longleftrightarrow> bit (pack w al pa) 0"
    by (simp add: and_one_eq bit_0 mod_2_eq_odd)
  ultimately show "extract_alloc (pack w al pa) = al"
    by (simp add: extract_alloc_def alloc_mask_def)
  have "bit (pack w al pa) 1 \<longleftrightarrow> pa"
    using lo [of 1]
    by (cases al; cases pa)
      (auto simp add: pack_def alloc_mask_def prev_alloc_mask_def bit_or_iff bit_small)
  moreover have "pack w al pa AND 2 \<noteq> 0 \<longleftrightarrow> bit (pack w al pa) 1"
    using and_exp_eq_0_iff_not_bit [of "pack w al pa" 1] by simp
  ultimately show "extract_prev_alloc (pack w al pa) = pa"
    by (simp add: extract_prev_alloc_def prev_alloc_mask_def)
qed

lemma w64_and_15: "16 dvd sz \<Longrightarrow> w64 sz AND 15 = 0"
proof -
  assume "16 dvd sz"
  then have "take_bit 4 sz = 0"
    by (simp add: take_bit_eq_mod dvd_eq_mod_eq_0)
  then have "take_bit 4 (of_nat sz :: 64 word) = 0"
    by (simp add: take_bit_of_nat)
  then show ?thesis
    by (simp add: mask15 take_bit_eq_mask w64_def)
qed

lemma extract_pack_w64:
  assumes "16 dvd sz"
  shows "extract_size (pack (w64 sz) al pa) = w64 sz"
    and "extract_alloc (pack (w64 sz) al pa) = al"
    and "extract_prev_alloc (pack (w64 sz) al pa) = pa"
  using extract_pack [OF w64_and_15 [OF assms]] by simp_all

lemma extract_pack_0:
  "extract_size (pack 0 al pa) = 0" "extract_alloc (pack 0 al pa) = al"
  "extract_prev_alloc (pack 0 al pa) = pa"
  using extract_pack [of 0] by simp_all

section \<open>Blocks in a chain\<close>

lemma chain_append: "chain a (xs @ ys) e \<longleftrightarrow> (\<exists>c. chain a xs c \<and> chain c ys e)"
  by (induction xs arbitrary: a) auto

lemma chain_le: "chain a bl e \<Longrightarrow> a \<le> e"
proof (induction bl arbitrary: a)
  case Nil
  then show ?case by simp
next
  case (Cons x bl)
  obtain b sz al where x: "x = (b, sz, al)" by (cases x)
  with Cons.prems have "chain (a + sz) bl e" by simp
  from Cons.IH [OF this] show ?case by simp
qed

lemma chain_bounds:
  "chain a bl e \<Longrightarrow> (b, sz, al) \<in> set bl \<Longrightarrow> a \<le> b \<and> b + sz \<le> e \<and> 32 \<le> sz \<and> 16 dvd sz"
proof (induction bl arbitrary: a)
  case Nil
  then show ?case by simp
next
  case (Cons x bl)
  obtain b' sz' al' where x: "x = (b', sz', al')" by (cases x)
  from Cons.prems x have c: "b' = a" "32 \<le> sz'" "16 dvd sz'" "chain (a + sz') bl e"
    by simp_all
  show ?case
  proof (cases "(b, sz, al) = x")
    case True
    with x c chain_le [OF c(4)] show ?thesis by simp
  next
    case False
    with Cons.prems have "(b, sz, al) \<in> set bl" by simp
    from Cons.IH [OF c(4) this] show ?thesis by simp
  qed
qed

lemma chain_aligned:
  "chain a bl e \<Longrightarrow> a mod 16 = 8 \<Longrightarrow>
     e mod 16 = 8 \<and> (\<forall>(b, sz, al) \<in> set bl. b mod 16 = 8)"
proof (induction bl arbitrary: a)
  case Nil
  then show ?case by simp
next
  case (Cons x bl)
  obtain b' sz' al' where x: "x = (b', sz', al')" by (cases x)
  from Cons.prems x have c: "b' = a" "16 dvd sz'" "chain (a + sz') bl e"
    by simp_all
  have "(a + sz') mod 16 = (a + sz' mod 16) mod 16"
    by (simp add: mod_add_right_eq)
  then have "(a + sz') mod 16 = 8"
    using Cons.prems(2) c(2) by (simp add: dvd_eq_mod_eq_0)
  from Cons.IH [OF c(3) this] x c Cons.prems(2) show ?case by simp
qed

lemma chain_split:
  assumes "chain a bl e" "(b, sz, al) \<in> set bl"
  shows "\<exists>xs ys. bl = xs @ (b, sz, al) # ys \<and> chain a xs b \<and> chain (b + sz) ys e"
proof -
  from assms(2) obtain xs ys where bl: "bl = xs @ (b, sz, al) # ys"
    by (meson split_list)
  with assms(1) obtain c where "chain a xs c" "chain c ((b, sz, al) # ys) e"
    by (auto simp: chain_append)
  then show ?thesis using bl by auto
qed

text \<open>Two blocks of a chain are the same block or do not overlap.\<close>

lemma chain_apart:
  assumes "chain a bl e" "(b, sz, al) \<in> set bl" "(b', sz', al') \<in> set bl"
  shows "(b = b' \<and> sz = sz' \<and> al = al') \<or> b + sz \<le> b' \<or> b' + sz' \<le> b"
proof -
  from chain_split [OF assms(1,2)] obtain xs ys where
    bl: "bl = xs @ (b, sz, al) # ys" and c1: "chain a xs b" and c2: "chain (b + sz) ys e"
    by blast
  from assms(3) bl consider "(b', sz', al') \<in> set xs" | "(b', sz', al') = (b, sz, al)"
    | "(b', sz', al') \<in> set ys"
    by auto
  then show ?thesis
  proof cases
    case 1
    from chain_bounds [OF c1 this] show ?thesis by simp
  next
    case 2
    then show ?thesis by simp
  next
    case 3
    from chain_bounds [OF c2 this] show ?thesis by simp
  qed
qed

lemma chain_same_addr:
  assumes "chain a bl e" "(b, sz, al) \<in> set bl" "(b, sz', al') \<in> set bl"
  shows "sz' = sz \<and> al' = al"
  using chain_apart [OF assms] chain_bounds [OF assms(1,2)] chain_bounds [OF assms(1,3)]
  by auto

section \<open>Headers\<close>

lemma last_alloc_simps [simp]:
  "last_alloc pa [] = pa"
  "last_alloc pa (xs @ [(b, sz, al)]) = al"
  "last_alloc pa ((b, sz, al) # xs) = last_alloc al xs"
  by (auto simp: last_alloc_def)

lemma last_alloc_append: "last_alloc pa (xs @ ys) = last_alloc (last_alloc pa xs) ys"
  by (induction xs arbitrary: pa) (auto simp: last_alloc_def)

lemma hdrs_append:
  "hdrs m pa (xs @ ys) \<longleftrightarrow> hdrs m pa xs \<and> hdrs m (last_alloc pa xs) ys"
  by (induction xs arbitrary: pa) auto

lemma hdrs_frame:
  assumes "\<forall>(b, sz, al) \<in> set bl. load64 m' (w64 b) = load64 m (w64 b)
             \<and> (\<not> al \<longrightarrow> load64 m' (w64 (b + sz - 8)) = load64 m (w64 (b + sz - 8)))"
  shows "hdrs m' pa bl = hdrs m pa bl"
  using assms by (induction bl arbitrary: pa) auto

lemma hdrs_lookup:
  "hdrs m pa bl \<Longrightarrow> (b, sz, al) \<in> set bl \<Longrightarrow>
     (\<exists>pa'. load64 m (w64 b) = pack (w64 sz) al pa')
     \<and> (\<not> al \<longrightarrow> extract_size (load64 m (w64 (b + sz - 8))) = w64 sz)"
  by (induction bl arbitrary: pa) auto

section \<open>Paths\<close>

lemma path_headp: "path k m p xs \<Longrightarrow> p = headp xs"
  by (cases xs) (auto simp: headp_def)

lemma path_frame:
  assumes "\<forall>x \<in> set xs. load64 m' (w64 (x + k)) = load64 m (w64 (x + k))"
  shows "path k m' p xs = path k m p xs"
  using assms by (induction xs arbitrary: p) auto

lemma path_field:
  "path k m p (xs @ x # ys) \<Longrightarrow> load64 m (w64 (x + k)) = headp ys"
proof (induction xs arbitrary: p)
  case Nil
  then show ?case using path_headp by fastforce
next
  case (Cons a xs)
  from Cons.prems have "path k m (load64 m (w64 (a + k))) (xs @ x # ys)"
    by simp
  from Cons.IH [OF this] show ?case .
qed

lemma path_tail:
  "path k m p (x # ys) \<Longrightarrow> path k m (headp ys) ys"
  using path_field [of k m p "[]" x ys] by simp

text \<open>
  Unlinking \<open>x\<close> from a path: the field of its predecessor, when it has one, now holds
  the pointer to its successor, and the fields of the other blocks are as before.
\<close>

lemma path_unlink:
  assumes "path k m p (xs @ x # ys)"
    and "\<forall>y \<in> set (butlast xs) \<union> set ys. load64 m' (w64 (y + k)) = load64 m (w64 (y + k))"
    and "xs \<noteq> [] \<longrightarrow> load64 m' (w64 (last xs + k)) = headp ys"
  shows "path k m' (if xs = [] then headp ys else p) (xs @ ys)"
  using assms
proof (induction xs arbitrary: p)
  case Nil
  from Nil.prems(1) have "path k m (headp ys) ys"
    by (simp add: path_tail)
  moreover have "path k m' (headp ys) ys = path k m (headp ys) ys"
    using Nil.prems(2) by (intro path_frame) simp
  ultimately show ?case by simp
next
  case (Cons a xs)
  from Cons.prems(1) have p: "p = w64 a" and r: "path k m (load64 m (w64 (a + k))) (xs @ x # ys)"
    by simp_all
  show ?case
  proof (cases "xs = []")
    case True
    with r have "path k m (headp ys) ys"
      by (simp add: path_tail)
    moreover have "path k m' (headp ys) ys = path k m (headp ys) ys"
      using Cons.prems(2) by (intro path_frame) simp
    moreover have "load64 m' (w64 (a + k)) = headp ys"
      using Cons.prems(3) True by simp
    ultimately show ?thesis using p True by simp
  next
    case False
    have a: "load64 m' (w64 (a + k)) = load64 m (w64 (a + k))"
      using Cons.prems(2) False by simp
    have "path k m' (if xs = [] then headp ys else load64 m (w64 (a + k))) (xs @ ys)"
      using Cons.prems(2,3) False by (intro Cons.IH [OF r]) auto
    then show ?thesis using p a False by simp
  qed
qed

text \<open>Linking \<open>b\<close> behind the last block of a path that is not empty.\<close>

lemma path_link_last:
  assumes "path k m p zs" "zs \<noteq> []"
    and "\<forall>y \<in> set (butlast zs). load64 m' (w64 (y + k)) = load64 m (w64 (y + k))"
    and "load64 m' (w64 (last zs + k)) = w64 b"
    and "load64 m' (w64 (b + k)) = 0"
  shows "path k m' p (zs @ [b])"
  using assms
proof (induction zs arbitrary: p)
  case Nil
  then show ?case by simp
next
  case (Cons a zs)
  from Cons.prems(1) have p: "p = w64 a" and r: "path k m (load64 m (w64 (a + k))) zs"
    by simp_all
  show ?case
  proof (cases "zs = []")
    case True
    then show ?thesis using p Cons.prems(4,5) by simp
  next
    case False
    have a: "load64 m' (w64 (a + k)) = load64 m (w64 (a + k))"
      using Cons.prems(3) False by simp
    have "path k m' (load64 m (w64 (a + k))) (zs @ [b])"
      using Cons.prems(3,4,5) False by (intro Cons.IH [OF r]) auto
    then show ?thesis using p a by simp
  qed
qed

lemma path_link_first:
  assumes "path k m p xs"
    and "\<forall>y \<in> set xs. load64 m' (w64 (y + k)) = load64 m (w64 (y + k))"
    and "load64 m' (w64 (b + k)) = p"
  shows "path k m' (w64 b) (b # xs)"
  using assms path_frame [of xs m' k m p] by simp

section \<open>What the invariant says about one block\<close>

lemma load_store_va:
  "va a \<Longrightarrow> va b \<Longrightarrow>
     load64 (store64 m (w64 a) v) (w64 b) = (if a = b then v else load64 m (w64 b))"
  using load64_store64_w64 [of a b m v] by (simp add: va_def)

lemma w64_unat_sub8: "8 \<le> unat w \<Longrightarrow> w - 8 = w64 (unat w - 8)"
  using w64_sub_numeral [of "num.Bit0 (num.Bit0 (num.Bit0 num.One))" "unat w"]
  by (simp add: w64_unat)

lemma inv_words:
  assumes "heap_blocks s bl"
  shows "mem_start_brk s = w64 (unat (mem_start_brk s))"
    and "mem_brk s - 8 = w64 (unat (mem_brk s) - 8)"
    and "heap_start s = w64 (unat (mem_start_brk s) + 8)"
proof -
  show "mem_start_brk s = w64 (unat (mem_start_brk s))"
    by (simp add: w64_unat)
  have "8 \<le> unat (mem_brk s)"
    using assms by (simp add: heap_blocks_def)
  then show "mem_brk s - 8 = w64 (unat (mem_brk s) - 8)"
    by (rule w64_unat_sub8)
  show "heap_start s = w64 (unat (mem_start_brk s) + 8)"
    using assms by (simp add: heap_blocks_def w64_unat flip: w64_add_numeral)
qed

lemma inv_blockD:
  assumes "heap_blocks s bl" "(b, sz, al) \<in> set bl"
  shows "32 \<le> sz" "16 dvd sz" "unat (mem_start_brk s) + 8 \<le> b" "b + sz + 8 \<le> unat (mem_brk s)"
    "va b" "va (b + 8)" "va (b + 16)" "va (b + sz - 8)" "va (b + sz)" "b mod 16 = 8"
proof -
  let ?lo = "unat (mem_start_brk s)" and ?brk = "unat (mem_brk s)"
  from assms(1) have c: "chain (?lo + 8) bl (?brk - 8)" and lo: "16 dvd ?lo"
    and brk: "?brk < 2 ^ 63" "?lo + 16 \<le> ?brk"
    by (simp_all add: heap_blocks_def)
  from chain_bounds [OF c assms(2)]
  have b: "?lo + 8 \<le> b" "b + sz \<le> ?brk - 8" "32 \<le> sz" "16 dvd sz"
    by simp_all
  have "(?lo + 8) mod 16 = 8"
    using lo by (simp add: mod_add_left_eq [symmetric] dvd_eq_mod_eq_0)
  from chain_aligned [OF c this] assms(2) have m: "b mod 16 = 8"
    by auto
  have "b = 16 * (b div 16) + 8"
    using m by (metis mult_div_mod_eq)
  then obtain q where q: "b = 16 * q + 8" ..
  have d: "8 dvd b"
    by (subst q) simp
  have dsz: "8 dvd sz"
  proof -
    have "(8::nat) dvd 16" by simp
    then show ?thesis using b(4) by (rule dvd_trans)
  qed
  show "32 \<le> sz" "16 dvd sz" "?lo + 8 \<le> b" "b mod 16 = 8"
    using b m by simp_all
  show "b + sz + 8 \<le> ?brk"
    using b brk by linarith
  show "va b" "va (b + 8)" "va (b + 16)" "va (b + sz)"
    using d dsz b brk by (simp_all add: va_def)
  have "8 dvd b + sz - 8"
    using d dsz by simp
  then show "va (b + sz - 8)"
    using b brk by (simp add: va_def)
qed

lemma inv_apart:
  assumes "heap_blocks s bl" "(b, sz, al) \<in> set bl" "(b', sz', al') \<in> set bl" "b \<noteq> b'"
  shows "b + sz \<le> b' \<or> b' + sz' \<le> b"
proof -
  from assms(1) have "chain (unat (mem_start_brk s) + 8) bl (unat (mem_brk s) - 8)"
    by (simp add: heap_blocks_def)
  from chain_apart [OF this assms(2,3)] assms(4) show ?thesis by simp
qed

lemma inv_same:
  assumes "heap_blocks s bl" "(b, sz, al) \<in> set bl" "(b, sz', al') \<in> set bl"
  shows "sz' = sz" "al' = al"
proof -
  from assms(1) have "chain (unat (mem_start_brk s) + 8) bl (unat (mem_brk s) - 8)"
    by (simp add: heap_blocks_def)
  from chain_same_addr [OF this assms(2,3)] show "sz' = sz" "al' = al" by simp_all
qed

lemma inv_header:
  assumes "heap_blocks s bl" "(b, sz, al) \<in> set bl"
  shows "get_size s (w64 b) = w64 sz" "get_alloc s (w64 b) = al"
    "\<not> al \<Longrightarrow> extract_size (load64 (mem s) (w64 (b + sz - 8))) = w64 sz"
proof -
  from assms(1) have h: "hdrs (mem s) True bl"
    by (simp add: heap_blocks_def)
  from hdrs_lookup [OF h assms(2)] obtain pa' where
    w: "load64 (mem s) (w64 b) = pack (w64 sz) al pa'"
    and f: "\<not> al \<longrightarrow> extract_size (load64 (mem s) (w64 (b + sz - 8))) = w64 sz"
    by blast
  from extract_pack_w64 [OF inv_blockD(2) [OF assms]] w
  show "get_size s (w64 b) = w64 sz" "get_alloc s (w64 b) = al"
    by (simp_all add: get_size_def get_alloc_def header_def)
  show "\<not> al \<Longrightarrow> extract_size (load64 (mem s) (w64 (b + sz - 8))) = w64 sz"
    using f by simp
qed

lemma inv_list:
  assumes "heap_lists s bl fl U" "i < list_length"
  shows "path 8 (mem s) (seg_list s i) (fl i)" "path 16 (mem s) (lastp (fl i)) (rev (fl i))"
    "distinct (fl i)"
    "set (fl i) = {b. \<exists>sz. (b, sz, False) \<in> set bl \<and> find_index (w64 sz) = i \<and> b \<notin> U}"
  using assms by (simp_all add: heap_lists_def)

lemma inv_nodeD:
  assumes "heap_lists s bl fl U" "i < list_length" "y \<in> set (fl i)"
  shows "\<exists>sz. (y, sz, False) \<in> set bl \<and> find_index (w64 sz) = i \<and> y \<notin> U"
  using inv_list(4) [OF assms(1,2)] assms(3) by auto

lemma inv_listed:
  assumes "heap_lists s bl fl U" "(b, sz, False) \<in> set bl" "b \<notin> U"
  shows "b \<in> set (fl (find_index (w64 sz)))"
  using inv_list(4) [OF assms(1) find_index_less_list_length [of "w64 sz"]] assms(2,3) by auto

lemma w64_nonzero: "va a \<Longrightarrow> 0 < a \<Longrightarrow> w64 a \<noteq> 0"
  using w64_eq_0 [of a] by (simp add: va_def)

lemma inv_block_ptr:
  assumes "heap_blocks s bl" "(y, sz, al) \<in> set bl"
  shows "w64 y \<noteq> 0"
  using inv_blockD(3,5) [OF assms] by (intro w64_nonzero) simp_all

section \<open>The words of different blocks\<close>

lemma link_slot_eq:
  assumes "heap_blocks s bl" "(y, sy, ay) \<in> set bl" "(z, sz, az) \<in> set bl"
    and "k = 8 \<or> k = 16" "k' = 8 \<or> k' = 16"
  shows "y + k' = z + k \<longleftrightarrow> y = z \<and> k' = k"
proof (cases "y = z")
  case True
  then show ?thesis by simp
next
  case False
  from inv_apart [OF assms(1,2,3) False] inv_blockD(1) [OF assms(1,2)]
    inv_blockD(1) [OF assms(1,3)] assms(4,5) False
  show ?thesis by auto
qed

lemma link_slot_not_tag:
  assumes "heap_blocks s bl" "(y, sy, ay) \<in> set bl" "(z, sz, az) \<in> set bl"
    and "k = 8 \<or> k = 16"
  shows "z + k \<noteq> y" "z + k \<noteq> y + sy - 8"
    "z + k \<noteq> unat (mem_start_brk s)" "z + k \<noteq> unat (mem_brk s) - 8"
proof -
  have "z + k \<noteq> y \<and> z + k \<noteq> y + sy - 8"
  proof (cases "y = z")
    case True
    with inv_same [OF assms(1,3), of sy ay] assms(2) have "sy = sz" by simp
    with True inv_blockD(1) [OF assms(1,3)] assms(4) show ?thesis by auto
  next
    case False
    from inv_apart [OF assms(1,2,3) False] inv_blockD(1) [OF assms(1,2)]
      inv_blockD(1) [OF assms(1,3)] assms(4)
    show ?thesis by auto
  qed
  then show "z + k \<noteq> y" "z + k \<noteq> y + sy - 8" by simp_all
  from inv_blockD(1,3,4) [OF assms(1,3)] assms(4)
  show "z + k \<noteq> unat (mem_start_brk s)" "z + k \<noteq> unat (mem_brk s) - 8"
    by auto
qed

lemma va_link:
  assumes "heap_blocks s bl" "(z, sz, az) \<in> set bl" "k = 8 \<or> k = 16"
  shows "va (z + k)"
  using inv_blockD(6,7) [OF assms(1,2)] assms(3) by auto

lemma link_load_store:
  assumes "heap_blocks s bl" "(y, sy, ay) \<in> set bl" "(z, sz, az) \<in> set bl"
    and "k = 8 \<or> k = 16" "k' = 8 \<or> k' = 16"
  shows "load64 (store64 m (w64 (z + k)) v) (w64 (y + k')) =
           (if y = z \<and> k' = k then v else load64 m (w64 (y + k')))"
  using load_store_va [OF va_link [OF assms(1,3,4)] va_link [OF assms(1,2,5)], of m v]
    link_slot_eq [OF assms]
  by auto

lemma va_ends:
  assumes "heap_blocks s bl"
  shows "va (unat (mem_start_brk s))" "va (unat (mem_brk s) - 8)"
proof -
  let ?lo = "unat (mem_start_brk s)" and ?brk = "unat (mem_brk s)"
  from assms have c: "chain (?lo + 8) bl (?brk - 8)" and lo: "16 dvd ?lo"
    and brk: "?brk < 2 ^ 63" "?lo + 16 \<le> ?brk"
    by (simp_all add: heap_blocks_def)
  have "(8::nat) dvd 16" by simp
  then have l8: "8 dvd ?lo" using lo by (rule dvd_trans)
  then show "va ?lo" using brk by (simp add: va_def)
  have "(?lo + 8) mod 16 = 8"
    using lo by (simp add: mod_add_left_eq [symmetric] dvd_eq_mod_eq_0)
  from chain_aligned [OF c this] have m: "(?brk - 8) mod 16 = 8" by simp
  have "?brk - 8 = 16 * ((?brk - 8) div 16) + 8"
    using m by (metis mult_div_mod_eq)
  then obtain q where q: "?brk - 8 = 16 * q + 8" ..
  have "8 dvd ?brk - 8"
    by (subst q) simp
  then show "va (?brk - 8)" using brk by (simp add: va_def)
qed

text \<open>Writing a link field of a block leaves the tags of the heap alone.\<close>

lemma heap_blocks_link_store:
  assumes "heap_blocks s bl" "(z, sz, az) \<in> set bl" "k = 8 \<or> k = 16"
    and "mem s' = store64 (mem s) (w64 (z + k)) v"
    and "mem_start_brk s' = mem_start_brk s" "mem_brk s' = mem_brk s"
    and "mem_max_addr s' = mem_max_addr s" "heap_start s' = heap_start s"
  shows "heap_blocks s' bl"
proof -
  have vz: "va (z + k)"
    using va_link [OF assms(1,2,3)] .
  have h: "hdrs (mem s') True bl = hdrs (mem s) True bl"
  proof (rule hdrs_frame, clarify)
    fix b sb ab assume b: "(b, sb, ab) \<in> set bl"
    from link_slot_not_tag(1,2) [OF assms(1) b assms(2,3)] inv_blockD(5,8) [OF assms(1) b] vz
    show "load64 (mem s') (w64 b) = load64 (mem s) (w64 b) \<and>
          (\<not> ab \<longrightarrow> load64 (mem s') (w64 (b + sb - 8)) = load64 (mem s) (w64 (b + sb - 8)))"
      by (simp add: assms(4) load_store_va)
  qed
  have p: "load64 (mem s') (mem_start_brk s) = load64 (mem s) (mem_start_brk s)"
    using link_slot_not_tag(3) [OF assms(1,2,2,3)] va_ends(1) [OF assms(1)] vz
    by (subst (1 2) inv_words(1) [OF assms(1)]) (simp add: assms(4) load_store_va)
  have e: "load64 (mem s') (mem_brk s - 8) = load64 (mem s) (mem_brk s - 8)"
    using link_slot_not_tag(4) [OF assms(1,2,2,3)] va_ends(2) [OF assms(1)] vz
    by (subst (1 2) inv_words(2) [OF assms(1)]) (simp add: assms(4) load_store_va)
  show ?thesis
    using assms(1) h p e by (simp add: heap_blocks_def assms(5-8))
qed

section \<open>Removing a block from its free list\<close>

lemma headp_rev: "headp (rev xs) = lastp xs"
  by (cases xs rule: rev_cases) (simp_all add: headp_def lastp_def)

lemma lastp_rev: "lastp (rev xs) = headp xs"
  by (cases xs) (simp_all add: headp_def lastp_def)

lemma lastp_append_nonempty: "ys \<noteq> [] \<Longrightarrow> lastp (xs @ ys) = lastp ys"
  by (simp add: lastp_def)

lemma last_notin_butlast: "distinct xs \<Longrightarrow> xs \<noteq> [] \<Longrightarrow> last xs \<notin> set (butlast xs)"
  by (cases xs rule: rev_cases) auto

lemma hd_notin_butlast_rev: "distinct ys \<Longrightarrow> ys \<noteq> [] \<Longrightarrow> hd ys \<notin> set (butlast (rev ys))"
  by (cases ys) auto

text \<open>A block is in the list of one class only.\<close>

lemma node_class:
  assumes "heap_blocks s bl" "heap_lists s bl fl U" "i < list_length" "j < list_length"
    and "y \<in> set (fl i)" "y \<in> set (fl j)"
  shows "i = j"
proof -
  from inv_nodeD [OF assms(2,3,5)] obtain sz where 1: "(y, sz, False) \<in> set bl" "find_index (w64 sz) = i"
    by blast
  from inv_nodeD [OF assms(2,4,6)] obtain sz' where 2: "(y, sz', False) \<in> set bl" "find_index (w64 sz') = j"
    by blast
  from inv_same(1) [OF assms(1) 1(1) 2(1)] 1(2) 2(2) show ?thesis by simp
qed

lemma heap_lists_unlink:
  assumes hb: "heap_blocks s bl" and hl: "heap_lists s bl fl U"
    and x: "(x, sz, False) \<in> set bl"
    and i: "i = find_index (w64 sz)" and fli: "fl i = xs @ x # ys"
    and sl: "seg_list s' = (seg_list s)(i := (if xs = [] then headp ys else seg_list s i))"
    and A: "xs \<noteq> [] \<longrightarrow> load64 (mem s') (w64 (last xs + 8)) = headp ys"
    and B: "ys \<noteq> [] \<longrightarrow> load64 (mem s') (w64 (hd ys + 16)) = lastp xs"
    and C: "\<forall>j<list_length. \<forall>y \<in> set (fl j). y \<noteq> x \<longrightarrow>
              (\<not> (xs \<noteq> [] \<and> y = last xs) \<longrightarrow>
                 load64 (mem s') (w64 (y + 8)) = load64 (mem s) (w64 (y + 8)))
              \<and> (\<not> (ys \<noteq> [] \<and> y = hd ys) \<longrightarrow>
                 load64 (mem s') (w64 (y + 16)) = load64 (mem s) (w64 (y + 16)))"
  shows "heap_lists s' bl (fl(i := xs @ ys)) (insert x U)"
  unfolding heap_lists_def
proof (intro allI impI)
  fix j assume j: "j < list_length"
  have il: "i < list_length"
    unfolding i by (rule find_index_less_list_length)
  note li = inv_list [OF hl il]
  have d: "distinct (xs @ x # ys)"
    using li(3) fli by simp
  show "path 8 (mem s') (seg_list s' j) ((fl(i := xs @ ys)) j)
      \<and> path 16 (mem s') (lastp ((fl(i := xs @ ys)) j)) (rev ((fl(i := xs @ ys)) j))
      \<and> distinct ((fl(i := xs @ ys)) j)
      \<and> set ((fl(i := xs @ ys)) j) =
          {b. \<exists>sz. (b, sz, False) \<in> set bl \<and> find_index (w64 sz) = j \<and> b \<notin> insert x U}"
  proof (cases "j = i")
    case True
    have p8: "path 8 (mem s) (seg_list s i) (xs @ x # ys)"
      using li(1) fli by simp
    have agree8: "\<forall>y \<in> set (butlast xs) \<union> set ys.
        load64 (mem s') (w64 (y + 8)) = load64 (mem s) (w64 (y + 8))"
    proof
      fix y assume y: "y \<in> set (butlast xs) \<union> set ys"
      then have yin: "y \<in> set (fl i)"
        using fli by (auto dest: in_set_butlastD)
      have "y \<noteq> x"
        using y d by (auto dest: in_set_butlastD)
      moreover have "\<not> (xs \<noteq> [] \<and> y = last xs)"
      proof
        assume a: "xs \<noteq> [] \<and> y = last xs"
        then have "y \<notin> set (butlast xs)" "y \<in> set xs"
          using last_notin_butlast [of xs] d by simp_all
        with y d show False by auto
      qed
      ultimately show "load64 (mem s') (w64 (y + 8)) = load64 (mem s) (w64 (y + 8))"
        using C il yin by blast
    qed
    have r8: "path 8 (mem s') (seg_list s' i) (xs @ ys)"
      using path_unlink [OF p8 agree8 A] sl by simp
    have p16: "path 16 (mem s) (lastp (xs @ x # ys)) (rev ys @ x # rev xs)"
      using li(2) fli by simp
    have agree16: "\<forall>y \<in> set (butlast (rev ys)) \<union> set (rev xs).
        load64 (mem s') (w64 (y + 16)) = load64 (mem s) (w64 (y + 16))"
    proof
      fix y assume y: "y \<in> set (butlast (rev ys)) \<union> set (rev xs)"
      then have yy: "y \<in> set ys \<or> y \<in> set xs"
        by (metis Un_iff in_set_butlastD set_rev)
      then have yin: "y \<in> set (fl i)"
        using fli by auto
      have "y \<noteq> x"
        using yy d by auto
      moreover have "\<not> (ys \<noteq> [] \<and> y = hd ys)"
      proof
        assume a: "ys \<noteq> [] \<and> y = hd ys"
        then have "y \<notin> set (butlast (rev ys))" "y \<in> set ys"
          using hd_notin_butlast_rev [of ys] d by simp_all
        with y d show False by auto
      qed
      ultimately show "load64 (mem s') (w64 (y + 16)) = load64 (mem s) (w64 (y + 16))"
        using C il yin by blast
    qed
    have B': "rev ys \<noteq> [] \<longrightarrow> load64 (mem s') (w64 (last (rev ys) + 16)) = headp (rev xs)"
      using B by (simp add: last_rev headp_rev)
    have "path 16 (mem s') (if rev ys = [] then headp (rev xs) else lastp (xs @ x # ys))
        (rev ys @ rev xs)"
      using path_unlink [OF p16 agree16 B'] .
    moreover have "(if rev ys = [] then headp (rev xs) else lastp (xs @ x # ys)) = lastp (xs @ ys)"
      by (simp add: headp_rev lastp_append_nonempty) (simp add: lastp_def)
    ultimately have r16: "path 16 (mem s') (lastp (xs @ ys)) (rev (xs @ ys))"
      by simp
    have st: "set (xs @ ys) = {b. \<exists>sz. (b, sz, False) \<in> set bl \<and> find_index (w64 sz) = i \<and> b \<notin> insert x U}"
      using li(4) fli d by auto
    show ?thesis
      using True r8 r16 d st by simp
  next
    case False
    note lj = inv_list [OF hl j]
    have ne: "y \<noteq> x \<and> \<not> (xs \<noteq> [] \<and> y = last xs) \<and> \<not> (ys \<noteq> [] \<and> y = hd ys)"
      if y: "y \<in> set (fl j)" for y
    proof -
      have "y \<notin> set (fl i)"
        using node_class [OF hb hl il j _ y] False by blast
      then show ?thesis
        using fli by auto
    qed
    have ag: "load64 (mem s') (w64 (y + 8)) = load64 (mem s) (w64 (y + 8))
        \<and> load64 (mem s') (w64 (y + 16)) = load64 (mem s) (w64 (y + 16))"
      if "y \<in> set (fl j)" for y
      using C j ne [OF that] that by blast
    have "path 8 (mem s') (seg_list s j) (fl j) = path 8 (mem s) (seg_list s j) (fl j)"
      using ag by (intro path_frame) simp
    moreover have "path 16 (mem s') (lastp (fl j)) (rev (fl j))
        = path 16 (mem s) (lastp (fl j)) (rev (fl j))"
      using ag by (intro path_frame) simp
    moreover have "{b. \<exists>sz. (b, sz, False) \<in> set bl \<and> find_index (w64 sz) = j \<and> b \<notin> insert x U}
        = {b. \<exists>sz. (b, sz, False) \<in> set bl \<and> find_index (w64 sz) = j \<and> b \<notin> U}"
      using inv_same(1) [OF hb x] i False by blast
    ultimately show ?thesis
      using False lj sl by simp
  qed
qed

lemma remove_from_list_fields [simp]:
  "mem_start_brk (remove_from_list s b) = mem_start_brk s"
  "mem_brk (remove_from_list s b) = mem_brk s"
  "mem_max_addr (remove_from_list s b) = mem_max_addr s"
  "heap_start (remove_from_list s b) = heap_start s"
  by (simp_all add: remove_from_list_def Let_def set_seg_list_def set_next_def set_prev_def)

lemma headp_nonempty: "ys \<noteq> [] \<Longrightarrow> headp ys = w64 (hd ys)"
  by (simp add: headp_def)

lemma lastp_nonempty: "xs \<noteq> [] \<Longrightarrow> lastp xs = w64 (last xs)"
  by (simp add: lastp_def)

lemma remove_from_list_inv:
  assumes hb: "heap_blocks s bl" and hl: "heap_lists s bl fl U"
    and x: "(x, sz, False) \<in> set bl" and xU: "x \<notin> U"
  defines "i \<equiv> find_index (w64 sz)"
  shows "heap_blocks (remove_from_list s (w64 x)) bl"
    and "heap_lists (remove_from_list s (w64 x)) bl (fl(i := remove1 x (fl i))) (insert x U)"
proof -
  let ?s' = "remove_from_list s (w64 x)"
  have il: "i < list_length"
    unfolding i_def by (rule find_index_less_list_length)
  note li = inv_list [OF hl il]
  have "x \<in> set (fl i)"
    unfolding i_def using inv_listed [OF hl x xU] .
  then obtain xs ys where fli: "fl i = xs @ x # ys"
    by (meson split_list)
  have d: "distinct (xs @ x # ys)"
    using li(3) fli by simp
  have rm: "remove1 x (fl i) = xs @ ys"
    using fli d by (simp add: remove1_append)
  have blk: "\<exists>sy. (y, sy, False) \<in> set bl" if "y \<in> set (fl j)" "j < list_length" for y j
    using inv_nodeD [OF hl that(2,1)] by blast
  have lastx: "\<exists>sy. (last xs, sy, False) \<in> set bl" if "xs \<noteq> []"
    using blk [of "last xs" i] il fli that by simp
  have hdy: "\<exists>sy. (hd ys, sy, False) \<in> set bl" if "ys \<noteq> []"
    using blk [of "hd ys" i] il fli that by simp
  have size: "get_size s (w64 x) = w64 sz"
    using inv_header(1) [OF hb x] .
  have p8: "path 8 (mem s) (seg_list s i) (xs @ x # ys)"
    using li(1) fli by simp
  have p16: "path 16 (mem s) (lastp (xs @ x # ys)) (rev ys @ x # rev xs)"
    using li(2) fli by simp
  have nxt: "block_next s (w64 x) = headp ys"
    using path_field [OF p8] by (simp add: block_next_def w64_add_numeral)
  have prv: "block_prev s (w64 x) = lastp xs"
    using path_field [OF p16] by (simp add: block_prev_def w64_add_numeral headp_rev)
  have nz_l: "lastp xs = 0 \<longleftrightarrow> xs = []"
  proof (cases "xs = []")
    case True
    then show ?thesis by (simp add: lastp_def)
  next
    case False
    from lastx [OF False] obtain sy where "(last xs, sy, False) \<in> set bl" ..
    from inv_block_ptr [OF hb this] False show ?thesis by (simp add: lastp_def)
  qed
  have nz_h: "headp ys = 0 \<longleftrightarrow> ys = []"
  proof (cases "ys = []")
    case True
    then show ?thesis by (simp add: headp_def)
  next
    case False
    from hdy [OF False] obtain sy where "(hd ys, sy, False) \<in> set bl" ..
    from inv_block_ptr [OF hb this] False show ?thesis by (simp add: headp_def)
  qed
  define m1 where "m1 = (if xs \<noteq> [] then store64 (mem s) (w64 (last xs + 8)) (headp ys) else mem s)"
  define m2 where "m2 = (if ys \<noteq> [] then store64 m1 (w64 (hd ys + 16)) (lastp xs) else m1)"
  have mem': "mem ?s' = m2"
    unfolding remove_from_list_def Let_def size nxt prv m1_def m2_def
    using nz_l nz_h
    by (auto simp add: i_def [symmetric] set_seg_list_def set_next_def set_prev_def
        headp_nonempty lastp_nonempty w64_add_numeral headp_def lastp_def)
  have sl': "seg_list ?s' = (seg_list s)(i := (if xs = [] then headp ys else seg_list s i))"
    unfolding remove_from_list_def Let_def size nxt prv
    using nz_l nz_h
    by (auto simp add: i_def [symmetric] set_seg_list_def set_next_def set_prev_def headp_def)
  \<comment> \<open>the tags\<close>
  define s1 where "s1 = s\<lparr>mem := m1\<rparr>"
  have hb1: "heap_blocks s1 bl"
  proof (cases "xs = []")
    case True
    then show ?thesis using hb by (simp add: s1_def m1_def)
  next
    case False
    from lastx [OF False] obtain sy where l: "(last xs, sy, False) \<in> set bl" ..
    show ?thesis
      by (rule heap_blocks_link_store [OF hb l, of 8]) (simp_all add: s1_def m1_def False)
  qed
  have hb2: "heap_blocks ?s' bl"
  proof (cases "ys = []")
    case True
    have "heap_blocks (s\<lparr>mem := m1\<rparr>) bl"
      using hb1 by (simp add: s1_def)
    then show ?thesis
      using True mem' by (simp add: heap_blocks_def m2_def)
  next
    case False
    from hdy [OF False] obtain sy where l: "(hd ys, sy, False) \<in> set bl" ..
    show ?thesis
      by (rule heap_blocks_link_store [OF hb1 l, of 16])
        (simp_all add: mem' s1_def m2_def False)
  qed
  show "heap_blocks ?s' bl" by (rule hb2)
  \<comment> \<open>the links\<close>
  have ld: "load64 m2 (w64 (y + k)) =
      (if ys \<noteq> [] \<and> y = hd ys \<and> k = 16 then lastp xs
       else if xs \<noteq> [] \<and> y = last xs \<and> k = 8 then headp ys
       else load64 (mem s) (w64 (y + k)))"
    if y: "(y, sy, False) \<in> set bl" and k: "k = 8 \<or> k = 16" for y sy k
  proof -
    have 1: "load64 m1 (w64 (y + k)) =
        (if xs \<noteq> [] \<and> y = last xs \<and> k = 8 then headp ys else load64 (mem s) (w64 (y + k)))"
    proof (cases "xs = []")
      case True
      then show ?thesis by (simp add: m1_def)
    next
      case False
      from lastx [OF False] obtain sl where l: "(last xs, sl, False) \<in> set bl" ..
      from link_load_store [OF hb y l _ k, of 8 "mem s" "headp ys"] False
      show ?thesis by (simp add: m1_def)
    qed
    show ?thesis
    proof (cases "ys = []")
      case True
      then show ?thesis using 1 by (simp add: m2_def)
    next
      case False
      from hdy [OF False] obtain sh where l: "(hd ys, sh, False) \<in> set bl" ..
      from link_load_store [OF hb y l _ k, of 16 m1 "lastp xs"] False 1
      show ?thesis by (auto simp add: m2_def)
    qed
  qed
  have ne: "xs \<noteq> [] \<Longrightarrow> ys \<noteq> [] \<Longrightarrow> last xs \<noteq> hd ys"
    using d by (metis disjoint_iff distinct_append hd_in_set last_in_set list.set_intros(2))
  have A: "xs \<noteq> [] \<longrightarrow> load64 (mem ?s') (w64 (last xs + 8)) = headp ys"
  proof
    assume n: "xs \<noteq> []"
    from lastx [OF n] obtain sl where l: "(last xs, sl, False) \<in> set bl" ..
    from ld [OF l, of 8] n show "load64 (mem ?s') (w64 (last xs + 8)) = headp ys"
      by (simp add: mem')
  qed
  have B: "ys \<noteq> [] \<longrightarrow> load64 (mem ?s') (w64 (hd ys + 16)) = lastp xs"
  proof
    assume n: "ys \<noteq> []"
    from hdy [OF n] obtain sh where l: "(hd ys, sh, False) \<in> set bl" ..
    from ld [OF l, of 16] n show "load64 (mem ?s') (w64 (hd ys + 16)) = lastp xs"
      by (simp add: mem')
  qed
  have C: "\<forall>j<list_length. \<forall>y \<in> set (fl j). y \<noteq> x \<longrightarrow>
              (\<not> (xs \<noteq> [] \<and> y = last xs) \<longrightarrow>
                 load64 (mem ?s') (w64 (y + 8)) = load64 (mem s) (w64 (y + 8)))
              \<and> (\<not> (ys \<noteq> [] \<and> y = hd ys) \<longrightarrow>
                 load64 (mem ?s') (w64 (y + 16)) = load64 (mem s) (w64 (y + 16)))"
  proof (intro allI impI ballI)
    fix j y assume j: "j < list_length" and y: "y \<in> set (fl j)" and "y \<noteq> x"
    from blk [OF y j] obtain sy where b: "(y, sy, False) \<in> set bl" ..
    from ld [OF b, of 8] ld [OF b, of 16]
    show "(\<not> (xs \<noteq> [] \<and> y = last xs) \<longrightarrow>
                 load64 (mem ?s') (w64 (y + 8)) = load64 (mem s) (w64 (y + 8)))
              \<and> (\<not> (ys \<noteq> [] \<and> y = hd ys) \<longrightarrow>
                 load64 (mem ?s') (w64 (y + 16)) = load64 (mem s) (w64 (y + 16)))"
      by (simp add: mem')
  qed
  have "heap_lists ?s' bl (fl(i := xs @ ys)) (insert x U)"
    using heap_lists_unlink [OF hb hl x _ fli sl' A B C] by (simp add: i_def)
  then show "heap_lists ?s' bl (fl(i := remove1 x (fl i))) (insert x U)"
    by (simp add: rm)
qed

section \<open>Adding a block to its free list\<close>

lemma add_to_list_fields [simp]:
  "mem_start_brk (add_to_list s b) = mem_start_brk s"
  "mem_brk (add_to_list s b) = mem_brk s"
  "mem_max_addr (add_to_list s b) = mem_max_addr s"
  "heap_start (add_to_list s b) = heap_start s"
  by (simp_all add: add_to_list_def Let_def set_seg_list_def set_next_def set_prev_def)

lemma heap_lists_link:
  assumes hb: "heap_blocks s bl" and hl: "heap_lists s bl fl U"
    and x: "(x, sz, False) \<in> set bl" and xU: "x \<in> U"
    and i: "i = find_index (w64 sz)"
    and sl: "seg_list s' = (seg_list s)(i := w64 x)"
    and N: "load64 (mem s') (w64 (x + 8)) = seg_list s i"
    and P: "load64 (mem s') (w64 (x + 16)) = 0"
    and H: "fl i \<noteq> [] \<longrightarrow> load64 (mem s') (w64 (hd (fl i) + 16)) = w64 x"
    and C: "\<forall>j<list_length. \<forall>y \<in> set (fl j).
              load64 (mem s') (w64 (y + 8)) = load64 (mem s) (w64 (y + 8))
              \<and> (\<not> (j = i \<and> y = hd (fl i)) \<longrightarrow>
                 load64 (mem s') (w64 (y + 16)) = load64 (mem s) (w64 (y + 16)))"
  shows "heap_lists s' bl (fl(i := x # fl i)) (U - {x})"
  unfolding heap_lists_def
proof (intro allI impI)
  fix j assume j: "j < list_length"
  have il: "i < list_length"
    unfolding i by (rule find_index_less_list_length)
  note li = inv_list [OF hl il]
  have xn: "x \<notin> set (fl k)" if "k < list_length" for k
    using inv_nodeD [OF hl that, of x] xU by blast
  show "path 8 (mem s') (seg_list s' j) ((fl(i := x # fl i)) j)
      \<and> path 16 (mem s') (lastp ((fl(i := x # fl i)) j)) (rev ((fl(i := x # fl i)) j))
      \<and> distinct ((fl(i := x # fl i)) j)
      \<and> set ((fl(i := x # fl i)) j) =
          {b. \<exists>sz. (b, sz, False) \<in> set bl \<and> find_index (w64 sz) = j \<and> b \<notin> U - {x}}"
  proof (cases "j = i")
    case True
    have r8: "path 8 (mem s') (w64 x) (x # fl i)"
      using path_link_first [OF li(1), of "mem s'" x] C il N by simp
    have r16: "path 16 (mem s') (lastp (x # fl i)) (rev (fl i) @ [x])"
    proof (cases "fl i = []")
      case True
      then show ?thesis using P by (simp add: lastp_def)
    next
      case False
      have l: "last (rev (fl i)) = hd (fl i)"
        using False by (simp add: last_rev)
      have ag: "\<forall>y \<in> set (butlast (rev (fl i))).
          load64 (mem s') (w64 (y + 16)) = load64 (mem s) (w64 (y + 16))"
      proof
        fix y assume y: "y \<in> set (butlast (rev (fl i)))"
        then have "y \<in> set (fl i)"
          by (metis in_set_butlastD set_rev)
        moreover have "y \<noteq> hd (fl i)"
          using hd_notin_butlast_rev [OF li(3) False] y by auto
        ultimately show "load64 (mem s') (w64 (y + 16)) = load64 (mem s) (w64 (y + 16))"
          using C il by blast
      qed
      have "path 16 (mem s') (lastp (fl i)) (rev (fl i) @ [x])"
        using path_link_last [OF li(2) _ ag, of x] False H P l by simp
      then show ?thesis
        using False by (simp add: lastp_def)
    qed
    have st: "set (x # fl i) =
        {b. \<exists>sz. (b, sz, False) \<in> set bl \<and> find_index (w64 sz) = i \<and> b \<notin> U - {x}}"
    proof (intro set_eqI iffI)
      fix b assume "b \<in> set (x # fl i)"
      then consider "b = x" | "b \<in> set (fl i)" by auto
      then show "b \<in> {b. \<exists>sz. (b, sz, False) \<in> set bl \<and> find_index (w64 sz) = i \<and> b \<notin> U - {x}}"
      proof cases
        case 1
        then show ?thesis using x i by blast
      next
        case 2
        then have "b \<in> {b. \<exists>sz. (b, sz, False) \<in> set bl \<and> find_index (w64 sz) = i \<and> b \<notin> U}"
          using li(4) by simp
        then show ?thesis by blast
      qed
    next
      fix b assume "b \<in> {b. \<exists>sz. (b, sz, False) \<in> set bl \<and> find_index (w64 sz) = i \<and> b \<notin> U - {x}}"
      then obtain sz' where b: "(b, sz', False) \<in> set bl" "find_index (w64 sz') = i" "b \<notin> U \<or> b = x"
        by blast
      show "b \<in> set (x # fl i)"
      proof (cases "b = x")
        case True
        then show ?thesis by simp
      next
        case False
        then have "b \<in> {b. \<exists>sz. (b, sz, False) \<in> set bl \<and> find_index (w64 sz) = i \<and> b \<notin> U}"
          using b by blast
        then show ?thesis using li(4) by simp
      qed
    qed
    show ?thesis
      using True r8 r16 li(3) xn [OF il] st sl by simp
  next
    case False
    note lj = inv_list [OF hl j]
    have ag: "load64 (mem s') (w64 (y + 8)) = load64 (mem s) (w64 (y + 8))
        \<and> load64 (mem s') (w64 (y + 16)) = load64 (mem s) (w64 (y + 16))"
      if "y \<in> set (fl j)" for y
      using C j that False by blast
    have "path 8 (mem s') (seg_list s j) (fl j) = path 8 (mem s) (seg_list s j) (fl j)"
      using ag by (intro path_frame) simp
    moreover have "path 16 (mem s') (lastp (fl j)) (rev (fl j))
        = path 16 (mem s) (lastp (fl j)) (rev (fl j))"
      using ag by (intro path_frame) simp
    moreover have "{b. \<exists>sz. (b, sz, False) \<in> set bl \<and> find_index (w64 sz) = j \<and> b \<notin> U - {x}}
        = {b. \<exists>sz. (b, sz, False) \<in> set bl \<and> find_index (w64 sz) = j \<and> b \<notin> U}"
      using inv_same(1) [OF hb x] i False by blast
    ultimately show ?thesis
      using False lj sl by simp
  qed
qed

lemma add_to_list_inv:
  assumes hb: "heap_blocks s bl" and hl: "heap_lists s bl fl U"
    and x: "(x, sz, False) \<in> set bl" and xU: "x \<in> U"
  defines "i \<equiv> find_index (w64 sz)"
  shows "heap_blocks (add_to_list s (w64 x)) bl"
    and "heap_lists (add_to_list s (w64 x)) bl (fl(i := x # fl i)) (U - {x})"
proof -
  let ?s' = "add_to_list s (w64 x)"
  have il: "i < list_length"
    unfolding i_def by (rule find_index_less_list_length)
  note li = inv_list [OF hl il]
  have blk: "\<exists>sy. (y, sy, False) \<in> set bl" if "y \<in> set (fl j)" "j < list_length" for y j
    using inv_nodeD [OF hl that(2,1)] by blast
  have size: "get_size s (w64 x) = w64 sz"
    using inv_header(1) [OF hb x] .
  have hd: "seg_list s i = headp (fl i)"
    using path_headp [OF li(1)] .
  have nz: "headp (fl i) = 0 \<longleftrightarrow> fl i = []"
  proof (cases "fl i = []")
    case True
    then show ?thesis by (simp add: headp_def)
  next
    case False
    then have "hd (fl i) \<in> set (fl i)" by simp
    from blk [OF this il] obtain sy where "(hd (fl i), sy, False) \<in> set bl" ..
    from inv_block_ptr [OF hb this] False show ?thesis by (simp add: headp_def)
  qed
  define m1 where "m1 = (if fl i = [] then store64 (mem s) (w64 (x + 8)) 0
                         else store64 (mem s) (w64 (x + 16)) 0)"
  define m2 where "m2 = (if fl i = [] then store64 m1 (w64 (x + 16)) 0
                         else store64 m1 (w64 (x + 8)) (w64 (hd (fl i))))"
  define m3 where "m3 = (if fl i = [] then m2
                         else store64 m2 (w64 (hd (fl i) + 16)) (w64 x))"
  have mem': "mem ?s' = m3"
    unfolding add_to_list_def Let_def size m1_def m2_def m3_def
    using nz hd
    by (auto simp add: i_def [symmetric] set_seg_list_def set_next_def set_prev_def
        w64_add_numeral headp_def)
  have sl': "seg_list ?s' = (seg_list s)(i := w64 x)"
    unfolding add_to_list_def Let_def size
    by (auto simp add: i_def [symmetric] set_seg_list_def set_next_def set_prev_def)
  \<comment> \<open>the tags\<close>
  have hb1: "heap_blocks (s\<lparr>mem := m1\<rparr>) bl"
  proof (cases "fl i = []")
    case True
    show ?thesis
      by (rule heap_blocks_link_store [OF hb x, of 8]) (simp_all add: m1_def True)
  next
    case False
    show ?thesis
      by (rule heap_blocks_link_store [OF hb x, of 16]) (simp_all add: m1_def False)
  qed
  have hb2: "heap_blocks (s\<lparr>mem := m2\<rparr>) bl"
  proof (cases "fl i = []")
    case True
    show ?thesis
      by (rule heap_blocks_link_store [OF hb1 x, of 16]) (simp_all add: m2_def True)
  next
    case False
    show ?thesis
      by (rule heap_blocks_link_store [OF hb1 x, of 8]) (simp_all add: m2_def False)
  qed
  have hb3: "heap_blocks ?s' bl"
  proof (cases "fl i = []")
    case True
    then show ?thesis
      using hb2 mem' by (simp add: heap_blocks_def m3_def)
  next
    case False
    then have "hd (fl i) \<in> set (fl i)" by simp
    from blk [OF this il] obtain sy where l: "(hd (fl i), sy, False) \<in> set bl" ..
    show ?thesis
      by (rule heap_blocks_link_store [OF hb2 l, of 16]) (simp_all add: mem' m3_def False)
  qed
  show "heap_blocks ?s' bl" by (rule hb3)
  \<comment> \<open>the links\<close>
  have ld: "load64 m3 (w64 (y + k)) =
      (if fl i \<noteq> [] \<and> y = hd (fl i) \<and> k = 16 then w64 x
       else if y = x \<and> k = 8 then headp (fl i)
       else if y = x \<and> k = 16 then 0
       else load64 (mem s) (w64 (y + k)))"
    if y: "(y, sy, ay) \<in> set bl" and k: "k = 8 \<or> k = 16" for y sy ay k
  proof (cases "fl i = []")
    case True
    show ?thesis
      using k True link_load_store [OF hb y x, of 16 k] link_load_store [OF hb y x, of 8 k]
      by (auto simp add: m3_def m2_def m1_def headp_def)
  next
    case False
    then have "hd (fl i) \<in> set (fl i)" by simp
    from inv_nodeD [OF hl il this] obtain sh where
      l: "(hd (fl i), sh, False) \<in> set bl" and hU: "hd (fl i) \<notin> U" by blast
    have ne: "hd (fl i) \<noteq> x" using hU xU by auto
    show ?thesis
      using k False ne link_load_store [OF hb y x, of 16 k] link_load_store [OF hb y x, of 8 k]
        link_load_store [OF hb y l, of 16 k]
      by (auto simp add: m3_def m2_def m1_def headp_def)
  qed
  have xn: "y \<noteq> x" if "y \<in> set (fl j)" "j < list_length" for y j
    using inv_nodeD [OF hl that(2,1)] xU by blast
  have N: "load64 (mem ?s') (w64 (x + 8)) = seg_list s i"
    using ld [OF x, of 8] xn [of "hd (fl i)" i] il by (auto simp add: mem' hd)
  have P: "load64 (mem ?s') (w64 (x + 16)) = 0"
    using ld [OF x, of 16] xn [of "hd (fl i)" i] il by (auto simp add: mem')
  have H: "fl i \<noteq> [] \<longrightarrow> load64 (mem ?s') (w64 (hd (fl i) + 16)) = w64 x"
  proof
    assume ne: "fl i \<noteq> []"
    then have "hd (fl i) \<in> set (fl i)" by simp
    from blk [OF this il] obtain sy where l: "(hd (fl i), sy, False) \<in> set bl" ..
    show "load64 (mem ?s') (w64 (hd (fl i) + 16)) = w64 x"
      using ld [OF l, of 16] ne by (simp add: mem')
  qed
  have C: "\<forall>j<list_length. \<forall>y \<in> set (fl j).
      load64 (mem ?s') (w64 (y + 8)) = load64 (mem s) (w64 (y + 8))
      \<and> (\<not> (j = i \<and> y = hd (fl i)) \<longrightarrow>
         load64 (mem ?s') (w64 (y + 16)) = load64 (mem s) (w64 (y + 16)))"
  proof (intro allI impI ballI conjI)
    fix j y assume j: "j < list_length" and y: "y \<in> set (fl j)"
    from inv_nodeD [OF hl j y] obtain sy where
      l: "(y, sy, False) \<in> set bl" and c: "find_index (w64 sy) = j" by blast
    show "load64 (mem ?s') (w64 (y + 8)) = load64 (mem s) (w64 (y + 8))"
      using ld [OF l, of 8] xn [OF y j] by (simp add: mem')
    assume n: "\<not> (j = i \<and> y = hd (fl i))"
    have "y \<noteq> hd (fl i)" if ne: "fl i \<noteq> []"
    proof
      assume e: "y = hd (fl i)"
      from ne have "hd (fl i) \<in> set (fl i)" by simp
      from inv_nodeD [OF hl il this] obtain sh where
        "(hd (fl i), sh, False) \<in> set bl" "find_index (w64 sh) = i" by blast
      with inv_same(1) [OF hb l, of sh False] e c n show False by auto
    qed
    then show "load64 (mem ?s') (w64 (y + 16)) = load64 (mem s) (w64 (y + 16))"
      using ld [OF l, of 16] xn [OF y j] by (auto simp add: mem')
  qed
  show "heap_lists ?s' bl (fl(i := x # fl i)) (U - {x})"
    using heap_lists_link [OF hb hl x xU _ sl' N P H C] by (simp add: i_def)
qed

section \<open>Rewriting a stretch of the heap\<close>

lemma va_tag: "a mod 16 = 8 \<Longrightarrow> a < 2 ^ 63 \<Longrightarrow> va a"
proof -
  assume m: "a mod 16 = 8" and l: "a < 2 ^ 63"
  have "a = 16 * (a div 16) + 8"
    using m by (metis mult_div_mod_eq)
  then obtain q where q: "a = 16 * q + 8" ..
  have "8 dvd a"
    by (subst q) simp
  then show "va a" using l by (simp add: va_def)
qed

lemma va_add: "va a \<Longrightarrow> 8 dvd n \<Longrightarrow> a + n < 2 ^ 63 \<Longrightarrow> va (a + n)"
  by (simp add: va_def)

lemma va_sub: "va a \<Longrightarrow> 8 dvd n \<Longrightarrow> n \<le> a \<Longrightarrow> va (a - n)"
  by (auto simp add: va_def intro: le_less_trans [OF diff_le_self])

lemma dvd_16_8: "16 dvd (n::nat) \<Longrightarrow> 8 dvd n"
proof -
  assume "16 dvd n"
  have "(8::nat) dvd 16" by simp
  then show ?thesis using \<open>16 dvd n\<close> by (rule dvd_trans)
qed

lemma chain_va:
  assumes "chain c xs e" "c mod 16 = 8" "e < 2 ^ 63" "(b, sz, al) \<in> set xs"
  shows "va b" "va (b + sz - 8)" "c \<le> b" "b + sz \<le> e" "32 \<le> sz" "16 dvd sz" "b mod 16 = 8"
proof -
  from chain_bounds [OF assms(1,4)]
  have b: "c \<le> b" "b + sz \<le> e" "32 \<le> sz" "16 dvd sz" by simp_all
  from chain_aligned [OF assms(1,2)] assms(4) have m: "b mod 16 = 8" by auto
  show "c \<le> b" "b + sz \<le> e" "32 \<le> sz" "16 dvd sz" "b mod 16 = 8"
    using b m by simp_all
  show vb: "va b"
    using m b assms(3) by (intro va_tag) simp_all
  have "va (b + (sz - 8))"
    using vb b assms(3) dvd_16_8 [OF b(4)] by (intro va_add) simp_all
  then show "va (b + sz - 8)" using b by simp
qed

lemma chain_end_va:
  assumes "chain c xs e" "c mod 16 = 8" "e < 2 ^ 63"
  shows "va e" "e mod 16 = 8" "va c"
proof -
  from chain_aligned [OF assms(1,2)] show m: "e mod 16 = 8" by simp
  show "va e" using m assms(3) by (rule va_tag)
  have "c \<le> e" using assms(1) by (rule chain_le)
  then show "va c" using assms(2,3) by (intro va_tag) simp_all
qed

lemma hdrs_frame_chain:
  assumes c: "chain c xs e" and al: "c mod 16 = 8" and e: "e < 2 ^ 63"
    and ag: "\<forall>a. va a \<longrightarrow> c \<le> a \<longrightarrow> a < e \<longrightarrow> load64 m' (w64 a) = load64 m (w64 a)"
  shows "hdrs m' pa xs = hdrs m pa xs"
proof (rule hdrs_frame, clarify)
  fix b sz al assume b: "(b, sz, al) \<in> set xs"
  note v = chain_va [OF c al e b]
  have "load64 m' (w64 b) = load64 m (w64 b)"
    using ag v(1,3,4,5) by simp
  moreover have "load64 m' (w64 (b + sz - 8)) = load64 m (w64 (b + sz - 8))"
    using ag v(2,3,4,5) by simp
  ultimately show "load64 m' (w64 b) = load64 m (w64 b)
      \<and> (\<not> al \<longrightarrow> load64 m' (w64 (b + sz - 8)) = load64 m (w64 (b + sz - 8)))"
    by simp
qed

lemma tl_ok_frame:
  assumes c: "chain c xs e" and al: "c mod 16 = 8" and e: "e < 2 ^ 63"
    and ag: "\<forall>a. va a \<longrightarrow> c \<le> a \<longrightarrow> a \<le> e \<longrightarrow> load64 m' (w64 a) = load64 m (w64 a)"
  shows "tl_ok m' pa xs e = tl_ok m pa xs e"
proof -
  have "hdrs m' pa xs = hdrs m pa xs"
    using ag by (intro hdrs_frame_chain [OF c al e]) simp
  moreover have "load64 m' (w64 e) = load64 m (w64 e)"
    using ag chain_end_va(1) [OF c al e] chain_le [OF c] by simp
  ultimately show ?thesis by (simp add: tl_ok_def)
qed

lemma tl_ok_Nil: "tl_ok m pa [] e \<longleftrightarrow> load64 m (w64 e) = pack 0 True pa"
  by (simp add: tl_ok_def)

lemma tl_ok_Cons:
  "tl_ok m pa ((b, sz, al) # bl) e \<longleftrightarrow>
     load64 m (w64 b) = pack (w64 sz) al pa
     \<and> (\<not> al \<longrightarrow> extract_size (load64 m (w64 (b + sz - 8))) = w64 sz)
     \<and> tl_ok m al bl e"
  by (simp add: tl_ok_def)

lemma tl_ok_append:
  "tl_ok m pa (xs @ ys) e \<longleftrightarrow> hdrs m pa xs \<and> tl_ok m (last_alloc pa xs) ys e"
  by (simp add: tl_ok_def hdrs_append last_alloc_append)

text \<open>The first word behind a block, and the effect of rewriting its \<open>prev_alloc\<close> bit.\<close>

lemma tl_ok_first:
  assumes "chain c post e" "tl_ok m pa post e"
  shows "extract_prev_alloc (load64 m (w64 c)) = pa"
    and "extract_alloc (load64 m (w64 c)) = (post = [] \<or> snd (snd (hd post)))"
    and "extract_size (load64 m (w64 c)) = (if post = [] then 0 else w64 (fst (snd (hd post))))"
proof -
  have "extract_prev_alloc (load64 m (w64 c)) = pa
    \<and> extract_alloc (load64 m (w64 c)) = (post = [] \<or> snd (snd (hd post)))
    \<and> extract_size (load64 m (w64 c)) = (if post = [] then 0 else w64 (fst (snd (hd post))))"
  proof (cases post)
    case Nil
    then show ?thesis using assms by (simp add: tl_ok_Nil extract_pack_0)
  next
    case (Cons x post')
    obtain b sz al where x: "x = (b, sz, al)" by (cases x)
    from assms Cons x have "b = c" "16 dvd sz" "load64 m (w64 c) = pack (w64 sz) al pa"
      by (simp_all add: tl_ok_Cons)
    then show ?thesis using Cons x by (simp add: extract_pack_w64)
  qed
  then show "extract_prev_alloc (load64 m (w64 c)) = pa"
    and "extract_alloc (load64 m (w64 c)) = (post = [] \<or> snd (snd (hd post)))"
    and "extract_size (load64 m (w64 c)) = (if post = [] then 0 else w64 (fst (snd (hd post))))"
    by simp_all
qed

lemma tl_ok_set_prev_alloc:
  assumes c: "chain c post e" and t: "tl_ok m pa post e"
    and al: "c mod 16 = 8" and e: "e < 2 ^ 63"
    and w: "w = load64 m (w64 c)"
  shows "tl_ok (store64 m (w64 c) (pack (extract_size w) (extract_alloc w) v)) v post e"
proof (cases post)
  case Nil
  then have "c = e" using c by simp
  then show ?thesis
    using t Nil w by (simp add: tl_ok_Nil extract_pack_0 load64_store64_same)
next
  case (Cons x post')
  obtain b sz a where x: "x = (b, sz, a)" by (cases x)
  from c t Cons x have b: "b = c" "16 dvd sz" "32 \<le> sz" "chain (c + sz) post' e"
    and l: "load64 m (w64 c) = pack (w64 sz) a pa"
    and f: "\<not> a \<longrightarrow> extract_size (load64 m (w64 (c + sz - 8))) = w64 sz"
    and t': "tl_ok m a post' e"
    by (simp_all add: tl_ok_Cons)
  let ?m' = "store64 m (w64 c) (pack (extract_size w) (extract_alloc w) v)"
  have mem: "(c, sz, a) \<in> set post" using Cons x b by simp
  note v = chain_va [OF c al e mem]
  have ne: "load64 ?m' (w64 y) = load64 m (w64 y)" if "va y" "c < y" for y
    using load_store_va [OF v(1) that(1)] that(2) by simp
  have "(c + sz) mod 16 = 8"
    using al b(2) by (simp add: mod_add_right_eq [symmetric] dvd_eq_mod_eq_0)
  then have "tl_ok ?m' a post' e = tl_ok m a post' e"
    using ne b(3) by (intro tl_ok_frame [OF b(4) _ e]) simp_all
  then have 1: "tl_ok ?m' v ((c, sz, a) # post') e \<longleftrightarrow>
      load64 ?m' (w64 c) = pack (w64 sz) a v
      \<and> (\<not> a \<longrightarrow> extract_size (load64 ?m' (w64 (c + sz - 8))) = w64 sz)"
    using t' by (simp add: tl_ok_Cons)
  have 2: "load64 ?m' (w64 (c + sz - 8)) = load64 m (w64 (c + sz - 8))"
    using ne [OF v(2)] b(3) by simp
  have 3: "load64 ?m' (w64 c) = pack (w64 sz) a v"
    using l w b(2) by (simp add: extract_pack_w64 load64_store64_same)
  show ?thesis
    unfolding Cons x b(1) 1 2 using 3 f by simp
qed

lemma heap_geom:
  assumes "heap_blocks s bl"
  shows "first_addr s mod 16 = 8" "epi_addr s < 2 ^ 63" "chain (first_addr s) bl (epi_addr s)"
    "mem_brk s - 8 = w64 (epi_addr s)" "mem_start_brk s = w64 (unat (mem_start_brk s))"
    "va (unat (mem_start_brk s))" "hdrs (mem s) True bl"
    "tl_ok (mem s) True bl (epi_addr s)"
proof -
  from assms have lo: "16 dvd unat (mem_start_brk s)"
    and c: "chain (first_addr s) bl (epi_addr s)"
    and brk: "unat (mem_brk s) < 2 ^ 63"
    and h: "hdrs (mem s) True bl"
    and ep: "load64 (mem s) (mem_brk s - 8) = pack 0 True (last_alloc True bl)"
    by (simp_all add: heap_blocks_def)
  show "first_addr s mod 16 = 8"
    using lo by (simp add: mod_add_left_eq [symmetric] dvd_eq_mod_eq_0)
  show "epi_addr s < 2 ^ 63" using brk by simp
  show "chain (first_addr s) bl (epi_addr s)" by (rule c)
  show w: "mem_brk s - 8 = w64 (epi_addr s)" by (rule inv_words(2) [OF assms])
  show "mem_start_brk s = w64 (unat (mem_start_brk s))" by (rule inv_words(1) [OF assms])
  show "va (unat (mem_start_brk s))" by (rule va_ends(1) [OF assms])
  show "hdrs (mem s) True bl" by (rule h)
  show "tl_ok (mem s) True bl (epi_addr s)"
    using h ep w by (simp add: tl_ok_def)
qed

lemma heap_blocks_at:
  assumes hb: "heap_blocks s bl" and b: "(b, sz, al) \<in> set bl"
  shows "\<exists>pre post. bl = pre @ (b, sz, al) # post
      \<and> chain (first_addr s) pre b \<and> chain (b + sz) post (epi_addr s)
      \<and> hdrs (mem s) True pre
      \<and> load64 (mem s) (w64 b) = pack (w64 sz) al (last_alloc True pre)
      \<and> (\<not> al \<longrightarrow> extract_size (load64 (mem s) (w64 (b + sz - 8))) = w64 sz)
      \<and> tl_ok (mem s) al post (epi_addr s)"
proof -
  note g = heap_geom [OF hb]
  from chain_split [OF g(3) b] obtain pre post where
    bl: "bl = pre @ (b, sz, al) # post" and c1: "chain (first_addr s) pre b"
    and c2: "chain (b + sz) post (epi_addr s)" by blast
  from g(8) have "hdrs (mem s) True pre
      \<and> tl_ok (mem s) (last_alloc True pre) ((b, sz, al) # post) (epi_addr s)"
    unfolding bl by (simp only: tl_ok_append)
  then show ?thesis
    using bl c1 c2 by (auto simp add: tl_ok_Cons)
qed

lemma heap_blocks_rewrite:
  assumes hb: "heap_blocks s (pre @ mid @ post)"
    and c1: "chain (first_addr s) pre c1"
    and c2: "chain c2 post (epi_addr s)"
    and mid': "chain c1 mid' c2"
    and flds: "mem_start_brk s' = mem_start_brk s" "mem_brk s' = mem_brk s"
      "mem_max_addr s' = mem_max_addr s" "heap_start s' = heap_start s"
    and low: "\<forall>a. va a \<longrightarrow> a < c1 \<longrightarrow> load64 (mem s') (w64 a) = load64 (mem s) (w64 a)"
    and h: "hdrs (mem s') (last_alloc True pre) mid'"
    and t: "tl_ok (mem s') (last_alloc (last_alloc True pre) mid') post (epi_addr s)"
  shows "heap_blocks s' (pre @ mid' @ post)"
proof -
  note g = heap_geom [OF hb]
  have ch: "chain (first_addr s) (pre @ mid' @ post) (epi_addr s)"
    using c1 c2 mid' by (auto simp add: chain_append)
  have le: "first_addr s \<le> c1" using c1 by (rule chain_le)
  have pro: "load64 (mem s') (mem_start_brk s) = load64 (mem s) (mem_start_brk s)"
    using low g(6) le by (subst (1 2) g(5)) simp
  have "c1 \<le> c2" using mid' by (rule chain_le)
  moreover have "c2 \<le> epi_addr s" using c2 by (rule chain_le)
  ultimately have c1e: "c1 < 2 ^ 63" using g(2) by simp
  have hp: "hdrs (mem s') True pre = hdrs (mem s) True pre"
    using low by (intro hdrs_frame_chain [OF c1 g(1) c1e]) simp
  have hp0: "hdrs (mem s) True pre"
    using g(7) by (simp add: hdrs_append)
  have tl: "tl_ok (mem s') True (pre @ mid' @ post) (epi_addr s)"
    using hp hp0 h t by (simp add: tl_ok_append)
  then have "hdrs (mem s') True (pre @ mid' @ post)"
    and "load64 (mem s') (mem_brk s - 8) = pack 0 True (last_alloc True (pre @ mid' @ post))"
    unfolding g(4) by (simp_all only: tl_ok_def)
  then show ?thesis
    using hb ch pro flds unfolding heap_blocks_def by simp
qed

lemma heap_lists_rewrite:
  assumes hb: "heap_blocks s (pre @ mid @ post)"
    and hl: "heap_lists s (pre @ mid @ post) fl U"
    and c1: "chain (first_addr s) pre c1"
    and c2: "chain c2 post (epi_addr s)"
    and mid': "chain c1 mid' c2"
    and sl: "seg_list s' = seg_list s"
    and ag: "\<forall>a. va a \<longrightarrow> a < c1 \<or> c2 < a \<longrightarrow> load64 (mem s') (w64 a) = load64 (mem s) (w64 a)"
    and um: "\<forall>(b, sz, al) \<in> set mid. al \<or> b \<in> U"
    and um': "\<forall>(b, sz, al) \<in> set mid'. al \<or> b \<in> U'"
    and UU: "\<forall>b. b < c1 \<or> c2 \<le> b \<longrightarrow> (b \<in> U' \<longleftrightarrow> b \<in> U)"
  shows "heap_lists s' (pre @ mid' @ post) fl U'"
  unfolding heap_lists_def
proof (intro allI impI)
  fix j assume j: "j < list_length"
  note g = heap_geom [OF hb]
  note lj = inv_list [OF hl j]
  have inpre: "b + sz \<le> c1 \<and> 32 \<le> sz" if "(b, sz, al) \<in> set pre" for b sz al
    using chain_bounds [OF c1 that] by simp
  have inpost: "c2 \<le> b" if "(b, sz, al) \<in> set post" for b sz al
    using chain_bounds [OF c2 that] by simp
  have outside: "(y, sy, False) \<in> set pre \<or> (y, sy, False) \<in> set post"
    if "(y, sy, False) \<in> set (pre @ mid @ post)" "y \<notin> U" for y sy
    using that um by auto
  have ag': "load64 (mem s') (w64 (y + 8)) = load64 (mem s) (w64 (y + 8))
      \<and> load64 (mem s') (w64 (y + 16)) = load64 (mem s) (w64 (y + 16))"
    if y: "y \<in> set (fl j)" for y
  proof -
    from inv_nodeD [OF hl j y] obtain sy where
      m: "(y, sy, False) \<in> set (pre @ mid @ post)" and u: "y \<notin> U" by blast
    note v = inv_blockD [OF hb m]
    from outside [OF m u] have "y + 16 < c1 \<or> c2 < y + 8"
    proof
      assume "(y, sy, False) \<in> set pre"
      from inpre [OF this] show ?thesis by simp
    next
      assume "(y, sy, False) \<in> set post"
      from inpost [OF this] show ?thesis by simp
    qed
    then show ?thesis
      using ag v(6,7) by auto
  qed
  have p8: "path 8 (mem s') (seg_list s j) (fl j) = path 8 (mem s) (seg_list s j) (fl j)"
    using ag' by (intro path_frame) simp
  have p16: "path 16 (mem s') (lastp (fl j)) (rev (fl j))
      = path 16 (mem s) (lastp (fl j)) (rev (fl j))"
    using ag' by (intro path_frame) simp
  have st: "{b. \<exists>sz. (b, sz, False) \<in> set (pre @ mid' @ post) \<and> find_index (w64 sz) = j \<and> b \<notin> U'}
      = {b. \<exists>sz. (b, sz, False) \<in> set (pre @ mid @ post) \<and> find_index (w64 sz) = j \<and> b \<notin> U}"
  proof (intro set_eqI iffI; clarify)
    fix b sz assume m: "(b, sz, False) \<in> set (pre @ mid' @ post)" and u: "b \<notin> U'"
    from m um' u have "(b, sz, False) \<in> set pre \<or> (b, sz, False) \<in> set post" by auto
    then have "((b, sz, False) \<in> set pre \<or> (b, sz, False) \<in> set post) \<and> (b < c1 \<or> c2 \<le> b)"
      using inpre [of b sz False] inpost [of b sz False] by auto
    with UU u show "\<exists>sz'. (b, sz', False) \<in> set (pre @ mid @ post)
        \<and> find_index (w64 sz') = find_index (w64 sz) \<and> b \<notin> U"
      by (intro exI [of _ sz]) auto
  next
    fix b sz assume m: "(b, sz, False) \<in> set (pre @ mid @ post)" and u: "b \<notin> U"
    from outside [OF m u]
    have "((b, sz, False) \<in> set pre \<or> (b, sz, False) \<in> set post) \<and> (b < c1 \<or> c2 \<le> b)"
      using inpre [of b sz False] inpost [of b sz False] by auto
    with UU u show "\<exists>sz'. (b, sz', False) \<in> set (pre @ mid' @ post)
        \<and> find_index (w64 sz') = find_index (w64 sz) \<and> b \<notin> U'"
      by (intro exI [of _ sz]) auto
  qed
  show "path 8 (mem s') (seg_list s' j) (fl j)
      \<and> path 16 (mem s') (lastp (fl j)) (rev (fl j))
      \<and> distinct (fl j)
      \<and> set (fl j) = {b. \<exists>sz. (b, sz, False) \<in> set (pre @ mid' @ post)
            \<and> find_index (w64 sz) = j \<and> b \<notin> U'}"
    unfolding st sl p8 p16 using lj by simp
qed

lemma chain_unique: "chain a xs c \<Longrightarrow> chain a xs c' \<Longrightarrow> c = c'"
  by (induction xs arbitrary: a) auto

lemma heap_inv_split:
  assumes "heap_blocks s (pre @ mid @ post)"
    and "chain (first_addr s) pre c1" "chain c1 mid c2"
  shows "chain c2 post (epi_addr s)" "c1 \<le> c2" "c1 mod 16 = 8" "c2 mod 16 = 8"
    "c2 \<le> epi_addr s" "first_addr s \<le> c1" "va c1" "va c2"
    "tl_ok (mem s) (last_alloc (last_alloc True pre) mid) post (epi_addr s)"
    "hdrs (mem s) (last_alloc True pre) mid"
proof -
  note g = heap_geom [OF assms(1)]
  from g(3) obtain d1 d2 where d: "chain (first_addr s) pre d1" "chain d1 mid d2"
    "chain d2 post (epi_addr s)"
    by (auto simp add: chain_append)
  have "d1 = c1" using d(1) assms(2) by (rule chain_unique)
  then have "d2 = c2" using d(2) assms(3) by (auto intro: chain_unique)
  then show c2: "chain c2 post (epi_addr s)" using d(3) by simp
  show le: "c1 \<le> c2" using assms(3) by (rule chain_le)
  show m1: "c1 mod 16 = 8" using chain_aligned [OF assms(2) g(1)] by simp
  show m2: "c2 mod 16 = 8" using chain_aligned [OF assms(3) m1] by simp
  show e: "c2 \<le> epi_addr s" using c2 by (rule chain_le)
  show "first_addr s \<le> c1" using assms(2) by (rule chain_le)
  show "va c2" using m2 e g(2) by (intro va_tag) simp_all
  show "va c1" using m1 le e g(2) by (intro va_tag) simp_all
  from g(8) show "tl_ok (mem s) (last_alloc (last_alloc True pre) mid) post (epi_addr s)"
    "hdrs (mem s) (last_alloc True pre) mid"
    by (simp_all add: tl_ok_append)
qed

lemma heap_inv_rewrite:
  assumes hi: "heap_inv s (pre @ mid @ post) fl U"
    and c1: "chain (first_addr s) pre c1" and mid: "chain c1 mid c2"
    and mid': "chain c1 mid' c2"
    and flds: "mem_start_brk s' = mem_start_brk s" "mem_brk s' = mem_brk s"
      "mem_max_addr s' = mem_max_addr s" "heap_start s' = heap_start s"
      "seg_list s' = seg_list s"
    and ag: "\<forall>a. va a \<longrightarrow> a < c1 \<or> c2 < a \<longrightarrow> load64 (mem s') (w64 a) = load64 (mem s) (w64 a)"
    and h: "hdrs (mem s') (last_alloc True pre) mid'"
    and t: "tl_ok (mem s') (last_alloc (last_alloc True pre) mid') post (epi_addr s)"
    and um: "\<forall>(b, sz, al) \<in> set mid. al \<or> b \<in> U"
    and um': "\<forall>(b, sz, al) \<in> set mid'. al \<or> b \<in> U'"
    and UU: "\<forall>b. b < c1 \<or> c2 \<le> b \<longrightarrow> (b \<in> U' \<longleftrightarrow> b \<in> U)"
  shows "heap_inv s' (pre @ mid' @ post) fl U'"
proof -
  from hi have hb: "heap_blocks s (pre @ mid @ post)"
    and hl: "heap_lists s (pre @ mid @ post) fl U"
    by (simp_all add: heap_inv_def)
  note sp = heap_inv_split [OF hb c1 mid]
  have "heap_blocks s' (pre @ mid' @ post)"
    using ag by (intro heap_blocks_rewrite [OF hb c1 sp(1) mid' flds(1-4) _ h t]) simp
  moreover have "heap_lists s' (pre @ mid' @ post) fl U'"
    by (rule heap_lists_rewrite [OF hb hl c1 sp(1) mid' flds(5) ag um um' UU])
  ultimately show ?thesis by (simp add: heap_inv_def)
qed

text \<open>Rewriting the tags of a stretch where the status of its last block stays.\<close>

lemma retag_same:
  assumes hi: "heap_inv s (pre @ mid @ post) fl U"
    and c1: "chain (first_addr s) pre c1" and mid: "chain c1 mid c2"
    and mid': "chain c1 mid' c2"
    and flds: "mem_start_brk s' = mem_start_brk s" "mem_brk s' = mem_brk s"
      "mem_max_addr s' = mem_max_addr s" "heap_start s' = heap_start s"
      "seg_list s' = seg_list s"
    and ag: "\<forall>a. va a \<longrightarrow> a < c1 \<or> c2 \<le> a \<longrightarrow> load64 (mem s') (w64 a) = load64 (mem s) (w64 a)"
    and h: "hdrs (mem s') (last_alloc True pre) mid'"
    and la: "last_alloc (last_alloc True pre) mid' = last_alloc (last_alloc True pre) mid"
    and um: "\<forall>(b, sz, al) \<in> set mid. al \<or> b \<in> U"
    and um': "\<forall>(b, sz, al) \<in> set mid'. al \<or> b \<in> U'"
    and UU: "\<forall>b. b < c1 \<or> c2 \<le> b \<longrightarrow> (b \<in> U' \<longleftrightarrow> b \<in> U)"
  shows "heap_inv s' (pre @ mid' @ post) fl U'"
proof -
  from hi have hb: "heap_blocks s (pre @ mid @ post)"
    by (simp add: heap_inv_def)
  note g = heap_geom [OF hb]
  note sp = heap_inv_split [OF hb c1 mid]
  have "tl_ok (mem s') (last_alloc (last_alloc True pre) mid) post (epi_addr s)
      = tl_ok (mem s) (last_alloc (last_alloc True pre) mid) post (epi_addr s)"
    using ag by (intro tl_ok_frame [OF sp(1) sp(4) g(2)]) simp
  then have t: "tl_ok (mem s') (last_alloc (last_alloc True pre) mid') post (epi_addr s)"
    using sp(9) la by simp
  show ?thesis
    using ag by (intro heap_inv_rewrite [OF hi c1 mid mid' flds _ h t um um' UU]) simp
qed

text \<open>
  Rewriting the tags of a stretch and then the \<open>prev_alloc\<close> bit of the word behind it, as
  \<open>update_next_prev_alloc\<close> does.
\<close>

lemma retag_next:
  assumes hi: "heap_inv s (pre @ mid @ post) fl U"
    and c1: "chain (first_addr s) pre c1" and mid: "chain c1 mid c2"
    and mid': "chain c1 mid' c2"
    and flds: "mem_start_brk s' = mem_start_brk s" "mem_brk s' = mem_brk s"
      "mem_max_addr s' = mem_max_addr s" "heap_start s' = heap_start s"
      "seg_list s' = seg_list s"
    and m': "mem s' = store64 m1 (w64 c2) (pack (extract_size w) (extract_alloc w) v)"
    and w: "w = load64 m1 (w64 c2)"
    and v: "v = last_alloc (last_alloc True pre) mid'"
    and ag: "\<forall>a. va a \<longrightarrow> a < c1 \<or> c2 \<le> a \<longrightarrow> load64 m1 (w64 a) = load64 (mem s) (w64 a)"
    and h: "hdrs m1 (last_alloc True pre) mid'"
    and um: "\<forall>(b, sz, al) \<in> set mid. al \<or> b \<in> U"
    and um': "\<forall>(b, sz, al) \<in> set mid'. al \<or> b \<in> U'"
    and UU: "\<forall>b. b < c1 \<or> c2 \<le> b \<longrightarrow> (b \<in> U' \<longleftrightarrow> b \<in> U)"
  shows "heap_inv s' (pre @ mid' @ post) fl U'"
proof -
  from hi have hb: "heap_blocks s (pre @ mid @ post)"
    by (simp add: heap_inv_def)
  note g = heap_geom [OF hb]
  note sp = heap_inv_split [OF hb c1 mid]
  have "tl_ok m1 (last_alloc (last_alloc True pre) mid) post (epi_addr s)
      = tl_ok (mem s) (last_alloc (last_alloc True pre) mid) post (epi_addr s)"
    using ag by (intro tl_ok_frame [OF sp(1) sp(4) g(2)]) simp
  then have t1: "tl_ok m1 (last_alloc (last_alloc True pre) mid) post (epi_addr s)"
    using sp(9) by simp
  have t: "tl_ok (mem s') (last_alloc (last_alloc True pre) mid') post (epi_addr s)"
    unfolding m' v [symmetric]
    by (rule tl_ok_set_prev_alloc [OF sp(1) t1 sp(4) g(2) w])
  have ne: "load64 (mem s') (w64 a) = load64 m1 (w64 a)" if "va a" "a \<noteq> c2" for a
    unfolding m' using load_store_va [OF sp(8) that(1)] that(2) by simp
  have c1e: "c2 < 2 ^ 63" using sp(5) g(2) by simp
  have h': "hdrs (mem s') (last_alloc True pre) mid'"
    using ne h by (subst hdrs_frame_chain [OF mid' sp(3) c1e, of _ m1]) simp_all
  have ag': "\<forall>a. va a \<longrightarrow> a < c1 \<or> c2 < a \<longrightarrow> load64 (mem s') (w64 a) = load64 (mem s) (w64 a)"
    using ne ag sp(2) by auto
  show ?thesis
    by (rule heap_inv_rewrite [OF hi c1 mid mid' flds ag' h' t um um' UU])
qed

section \<open>Writing tags\<close>

lemma write_block_fields [simp]:
  "mem_start_brk (write_block s b n al pa) = mem_start_brk s"
  "mem_brk (write_block s b n al pa) = mem_brk s"
  "mem_max_addr (write_block s b n al pa) = mem_max_addr s"
  "heap_start (write_block s b n al pa) = heap_start s"
  "seg_list (write_block s b n al pa) = seg_list s"
  by (simp_all add: write_block_def Let_def set_header_def)

lemma update_next_prev_alloc_fields [simp]:
  "mem_start_brk (update_next_prev_alloc s b v) = mem_start_brk s"
  "mem_brk (update_next_prev_alloc s b v) = mem_brk s"
  "mem_max_addr (update_next_prev_alloc s b v) = mem_max_addr s"
  "heap_start (update_next_prev_alloc s b v) = heap_start s"
  "seg_list (update_next_prev_alloc s b v) = seg_list s"
  by (simp_all add: update_next_prev_alloc_def Let_def set_header_def)

lemma write_block_mem:
  assumes "16 dvd n" "8 \<le> b + n"
  shows "mem (write_block s (w64 b) (w64 n) al pa) =
     (if al then store64 (mem s) (w64 b) (pack (w64 n) True pa)
      else store64 (store64 (mem s) (w64 b) (pack (w64 n) False pa))
             (w64 (b + n - 8)) (pack (w64 n) False pa))"
proof -
  have "w64 b + 8 + w64 n - 16 = w64 (b + n + 8 - 16)"
    using assms(2) by (simp add: w64_add_numeral w64_add w64_sub_numeral add.commute add.left_commute)
  also have "b + n + 8 - 16 = b + n - 8" by simp
  finally have f: "w64 b + 8 + w64 n - 16 = w64 (b + n - 8)" .
  show ?thesis
    using assms(1) f
    by (simp add: write_block_def Let_def set_header_def header_to_footer_def get_size_def
        header_def load64_store64_same extract_pack_w64 dsize_def wsize_def)
qed

lemma update_next_prev_alloc_mem:
  assumes "get_size s (w64 b) = w64 n"
  shows "mem (update_next_prev_alloc s (w64 b) v) =
     store64 (mem s) (w64 (b + n))
       (pack (extract_size (load64 (mem s) (w64 (b + n))))
          (extract_alloc (load64 (mem s) (w64 (b + n)))) v)"
  using assms
  by (simp add: update_next_prev_alloc_def Let_def set_header_def find_next_def get_size_def
      get_alloc_def header_def w64_add)

lemma get_header_simps:
  assumes "load64 (mem s) (w64 b) = pack (w64 n) al pa" "16 dvd n"
  shows "get_size s (w64 b) = w64 n" "get_alloc s (w64 b) = al" "get_prev_alloc s (w64 b) = pa"
  using assms by (simp_all add: get_size_def get_alloc_def get_prev_alloc_def header_def extract_pack_w64)

section \<open>Splitting\<close>

lemma split_block_fields [simp]:
  "mem_start_brk (split_block s b n) = mem_start_brk s"
  "mem_brk (split_block s b n) = mem_brk s"
  "mem_max_addr (split_block s b n) = mem_max_addr s"
  "heap_start (split_block s b n) = heap_start s"
  by (simp_all add: split_block_def Let_def)

lemma split_cond:
  assumes "asize \<le> sz" "sz < 2 ^ 63"
  shows "min_block_size \<le> w64 sz - w64 asize \<longleftrightarrow> 32 \<le> sz - asize"
proof -
  have 1: "w64 sz - w64 asize = w64 (sz - asize)"
    using assms(1) by (rule w64_sub)
  have 2: "min_block_size = w64 32"
    by (simp add: min_block_size_def dsize_def wsize_def w64_numeral)
  have "(32::nat) < 2 ^ 64" "sz - asize < 2 ^ 64"
    using assms(2) by simp_all
  then show ?thesis
    unfolding 1 2 by (rule w64_le)
qed

lemma split_block_split:
  assumes hi: "heap_inv s bl fl {}"
    and b: "(b, sz, False) \<in> set bl"
    and a: "32 \<le> asize" "16 dvd asize" "asize \<le> sz" "32 \<le> sz - asize"
  defines "i \<equiv> find_index (w64 sz)" and "k \<equiv> find_index (w64 (sz - asize))"
  defines "fl1 \<equiv> fl(i := remove1 b (fl i))"
  shows "\<exists>pre post. bl = pre @ (b, sz, False) # post
      \<and> heap_inv (split_block s (w64 b) (w64 asize))
          (pre @ [(b, asize, True), (b + asize, sz - asize, False)] @ post)
          (fl1(k := (b + asize) # fl1 k)) {}"
proof -
  from hi have hb: "heap_blocks s bl" and hl: "heap_lists s bl fl {}"
    by (simp_all add: heap_inv_def)
  define s1 where "s1 = remove_from_list s (w64 b)"
  have hb1: "heap_blocks s1 bl" and hl1: "heap_lists s1 bl fl1 {b}"
    using remove_from_list_inv [OF hb hl b] by (simp_all add: s1_def fl1_def i_def)
  have hi1: "heap_inv s1 bl fl1 {b}"
    using hb1 hl1 by (simp add: heap_inv_def)
  note g = heap_geom [OF hb1]
  from heap_blocks_at [OF hb1 b] obtain pre post where
    bl: "bl = pre @ (b, sz, False) # post"
    and c1: "chain (first_addr s1) pre b" and c2: "chain (b + sz) post (epi_addr s1)"
    and hd: "load64 (mem s1) (w64 b) = pack (w64 sz) False (last_alloc True pre)"
    by blast
  define pa where "pa = last_alloc True pre"
  note v = inv_blockD [OF hb1 b]
  have szl: "sz < 2 ^ 63" using v(4) g(2) by simp
  note h1 = get_header_simps [OF hd v(2)]
  define s2 where "s2 = write_block s1 (w64 b) (w64 asize) True pa"
  have m2: "mem s2 = store64 (mem s1) (w64 b) (pack (w64 asize) True pa)"
    unfolding s2_def using a by (simp add: write_block_mem)
  have "load64 (mem s2) (w64 b) = pack (w64 asize) True pa"
    by (simp add: m2 load64_store64_same)
  note h2 = get_header_simps [OF this a(2)]
  have nx: "find_next s2 (w64 b) = w64 (b + asize)"
    by (simp add: find_next_def h2 w64_add)
  define s3 where "s3 = write_block s2 (w64 (b + asize)) (w64 (sz - asize)) False True"
  have d: "16 dvd sz - asize" using v(2) a(2) by (rule dvd_diff_nat)
  have m3: "mem s3 = store64 (store64 (mem s2) (w64 (b + asize)) (pack (w64 (sz - asize)) False True))
      (w64 (b + sz - 8)) (pack (w64 (sz - asize)) False True)"
    unfolding s3_def using a d by (simp add: write_block_mem)
  have sub: "w64 sz - w64 asize = w64 (sz - asize)"
    using a(3) by (rule w64_sub)
  have cnd: "min_block_size \<le> w64 (sz - asize)"
    using split_cond [OF a(3) szl] a(4) by (simp add: sub)
  have sp: "split_block s (w64 b) (w64 asize) = add_to_list s3 (w64 (b + asize))"
    by (simp add: split_block_def Let_def s1_def [symmetric] h1 sub cnd pa_def [symmetric]
        s2_def [symmetric] nx s3_def [symmetric])
  \<comment> \<open>the new tags\<close>
  have va1: "va (b + asize)"
    using v(5) a v(4) g(2) dvd_16_8 [OF a(2)] by (intro va_add) simp_all
  have ld: "load64 (mem s3) (w64 x) =
      (if x = b + sz - 8 then pack (w64 (sz - asize)) False True
       else if x = b + asize then pack (w64 (sz - asize)) False True
       else if x = b then pack (w64 asize) True pa
       else load64 (mem s1) (w64 x))" if "va x" for x
    using load_store_va [OF v(8) that] load_store_va [OF va1 that] load_store_va [OF v(5) that]
    by (simp add: m3 m2)
  let ?mid' = "[(b, asize, True), (b + asize, sz - asize, False)]"
  have hi1': "heap_inv s1 (pre @ [(b, sz, False)] @ post) fl1 {b}"
    using hi1 bl by simp
  have hi3: "heap_inv s3 (pre @ ?mid' @ post) fl1 {b + asize}"
  proof (rule retag_same [OF hi1'])
    show "chain (first_addr s1) pre b" by (rule c1)
    show "chain b [(b, sz, False)] (b + sz)" using v by simp
    show "chain b ?mid' (b + sz)" using a d by simp
    show "\<forall>a. va a \<longrightarrow> a < b \<or> b + sz \<le> a \<longrightarrow> load64 (mem s3) (w64 a) = load64 (mem s1) (w64 a)"
      using ld a by auto
    have ne: "b \<noteq> b + sz - 8" "b \<noteq> b + asize" "b + asize \<noteq> b + sz - 8"
      using a by arith+
    have l1: "load64 (mem s3) (w64 b) = pack (w64 asize) True pa"
      using ld [OF v(5)] ne by simp
    have l2: "load64 (mem s3) (w64 (b + asize)) = pack (w64 (sz - asize)) False True"
      using ld [OF va1] ne by simp
    have e: "b + asize + (sz - asize) - 8 = b + sz - 8"
      using a by arith
    have l3: "load64 (mem s3) (w64 (b + asize + (sz - asize) - 8)) = pack (w64 (sz - asize)) False True"
      unfolding e using ld [OF v(8)] by simp
    show "hdrs (mem s3) (last_alloc True pre) ?mid'"
      unfolding hdrs.simps l1 l2 l3 using d by (simp add: pa_def extract_pack_w64)
    show "\<forall>(x, n, al) \<in> set [(b, sz, False)]. al \<or> x \<in> {b}" by simp
    show "\<forall>(x, n, al) \<in> set ?mid'. al \<or> x \<in> {b + asize}" by simp
    show "\<forall>x. x < b \<or> b + sz \<le> x \<longrightarrow> (x \<in> {b + asize} \<longleftrightarrow> x \<in> {b})" using a by auto
  qed (simp_all add: s3_def s2_def)
  then have hb3: "heap_blocks s3 (pre @ ?mid' @ post)"
    and hl3: "heap_lists s3 (pre @ ?mid' @ post) fl1 {b + asize}"
    by (simp_all add: heap_inv_def)
  have t: "(b + asize, sz - asize, False) \<in> set (pre @ ?mid' @ post)" by simp
  have "heap_inv (add_to_list s3 (w64 (b + asize))) (pre @ ?mid' @ post)
      (fl1(k := (b + asize) # fl1 k)) {}"
    using add_to_list_inv [OF hb3 hl3 t] by (simp add: heap_inv_def k_def)
  then show ?thesis
    using bl sp by auto
qed

lemma split_block_whole:
  assumes hi: "heap_inv s bl fl {}"
    and b: "(b, sz, False) \<in> set bl"
    and a: "asize \<le> sz" "\<not> 32 \<le> sz - asize"
  defines "i \<equiv> find_index (w64 sz)"
  shows "\<exists>pre post. bl = pre @ (b, sz, False) # post
      \<and> heap_inv (split_block s (w64 b) (w64 asize)) (pre @ (b, sz, True) # post)
          (fl(i := remove1 b (fl i))) {}"
proof -
  define fl1 where "fl1 = fl(i := remove1 b (fl i))"
  from hi have hb: "heap_blocks s bl" and hl: "heap_lists s bl fl {}"
    by (simp_all add: heap_inv_def)
  define s1 where "s1 = remove_from_list s (w64 b)"
  have hb1: "heap_blocks s1 bl" and hl1: "heap_lists s1 bl fl1 {b}"
    using remove_from_list_inv [OF hb hl b] by (simp_all add: s1_def fl1_def i_def)
  have hi1: "heap_inv s1 bl fl1 {b}"
    using hb1 hl1 by (simp add: heap_inv_def)
  note g = heap_geom [OF hb1]
  from heap_blocks_at [OF hb1 b] obtain pre post where
    bl: "bl = pre @ (b, sz, False) # post"
    and c1: "chain (first_addr s1) pre b" and c2: "chain (b + sz) post (epi_addr s1)"
    and hd: "load64 (mem s1) (w64 b) = pack (w64 sz) False (last_alloc True pre)"
    by blast
  define pa where "pa = last_alloc True pre"
  note v = inv_blockD [OF hb1 b]
  have szl: "sz < 2 ^ 63" using v(4) g(2) by simp
  note h1 = get_header_simps [OF hd v(2)]
  define s2 where "s2 = write_block s1 (w64 b) (w64 sz) True pa"
  define m1 where "m1 = store64 (mem s1) (w64 b) (pack (w64 sz) True pa)"
  have m2: "mem s2 = m1"
    unfolding s2_def m1_def using v by (simp add: write_block_mem)
  have l1: "load64 m1 (w64 b) = pack (w64 sz) True pa"
    by (simp add: m1_def load64_store64_same)
  then have "load64 (mem s2) (w64 b) = pack (w64 sz) True pa"
    by (simp add: m2)
  note h2 = get_header_simps [OF this v(2)]
  define s3 where "s3 = update_next_prev_alloc s2 (w64 b) True"
  have sub: "w64 sz - w64 asize = w64 (sz - asize)"
    using a(1) by (rule w64_sub)
  have cnd: "\<not> min_block_size \<le> w64 (sz - asize)"
    using split_cond [OF a(1) szl] a(2) by (simp add: sub)
  have sp: "split_block s (w64 b) (w64 asize) = s3"
    by (simp add: split_block_def Let_def s1_def [symmetric] h1 sub cnd pa_def [symmetric]
        s2_def [symmetric] s3_def [symmetric])
  have m3: "mem s3 = store64 m1 (w64 (b + sz))
      (pack (extract_size (load64 m1 (w64 (b + sz))))
         (extract_alloc (load64 m1 (w64 (b + sz)))) True)"
    unfolding s3_def by (simp add: update_next_prev_alloc_mem [OF h2(1)] m2)
  have hi1': "heap_inv s1 (pre @ [(b, sz, False)] @ post) fl1 {b}"
    using hi1 bl by simp
  have "heap_inv s3 (pre @ [(b, sz, True)] @ post) fl1 {}"
  proof (rule retag_next [OF hi1' _ _ _ _ _ _ _ _ m3 refl])
    show "chain (first_addr s1) pre b" by (rule c1)
    show "chain b [(b, sz, False)] (b + sz)" using v by simp
    show "chain b [(b, sz, True)] (b + sz)" using v by simp
    show "\<forall>a. va a \<longrightarrow> a < b \<or> b + sz \<le> a \<longrightarrow> load64 m1 (w64 a) = load64 (mem s1) (w64 a)"
      using load_store_va [OF v(5)] v(1) by (auto simp add: m1_def)
    show "hdrs m1 (last_alloc True pre) [(b, sz, True)]"
      using l1 by (simp add: pa_def)
    show "\<forall>x. x < b \<or> b + sz \<le> x \<longrightarrow> (x \<in> {} \<longleftrightarrow> x \<in> {b})"
      using v(1) by auto
  qed (simp_all add: s3_def s2_def)
  then show ?thesis
    using bl sp by (auto simp add: fl1_def)
qed

lemma split_block_inv:
  assumes hi: "heap_inv s bl fl {}"
    and b: "(b, sz, False) \<in> set bl"
    and a: "32 \<le> asize" "16 dvd asize" "asize \<le> sz"
  shows "\<exists>pre post mid' fl'. bl = pre @ (b, sz, False) # post
      \<and> heap_inv (split_block s (w64 b) (w64 asize)) (pre @ mid' @ post) fl' {}
      \<and> (mid' = [(b, sz, True)] \<or> mid' = [(b, asize, True), (b + asize, sz - asize, False)])"
proof (cases "32 \<le> sz - asize")
  case True
  from split_block_split [OF hi b a True] show ?thesis by blast
next
  case False
  from split_block_whole [OF hi b a(3) False] obtain pre post where
    "bl = pre @ (b, sz, False) # post"
    "heap_inv (split_block s (w64 b) (w64 asize)) (pre @ [(b, sz, True)] @ post)
       (fl(find_index (w64 sz) := remove1 b (fl (find_index (w64 sz))))) {}"
    by auto
  then show ?thesis by blast
qed

section \<open>Merging and freeing\<close>

lemma chain_span:
  "chain a xs e \<Longrightarrow> xs \<noteq> [] \<Longrightarrow> 32 \<le> e - a \<and> 16 dvd e - a \<and> a + 32 \<le> e"
proof (induction xs arbitrary: a)
  case Nil
  then show ?case by simp
next
  case (Cons x xs)
  obtain b sz al where x: "x = (b, sz, al)" by (cases x)
  from Cons.prems x have c: "32 \<le> sz" "16 dvd sz" "chain (a + sz) xs e" by simp_all
  show ?case
  proof (cases "xs = []")
    case True
    then show ?thesis using c by auto
  next
    case False
    from Cons.IH [OF c(3) False] have i: "16 dvd e - (a + sz)" "a + sz + 32 \<le> e" by simp_all
    have "e - a = (e - (a + sz)) + sz" using i(2) by simp
    then have "16 dvd e - a" using i(1) c(2) by simp
    then show ?thesis using i(2) c(1) by simp
  qed
qed

text \<open>
  Writing one free block over a stretch of blocks that are in no list, and clearing the
  \<open>prev_alloc\<close> bit behind it.
\<close>

lemma merge_inv:
  assumes hi: "heap_inv s (pre @ mid @ post) fl U"
    and c1: "chain (first_addr s) pre c1" and mid: "chain c1 mid c2" and ne: "mid \<noteq> []"
    and um: "\<forall>(b, sz, al) \<in> set mid. al \<or> b \<in> U"
    and UU: "\<forall>b. b < c1 \<or> c2 \<le> b \<longrightarrow> (b \<in> U' \<longleftrightarrow> b \<in> U)"
    and cU: "c1 \<in> U'"
    and pa: "pa = last_alloc True pre"
  shows "heap_inv
     (update_next_prev_alloc (write_block s (w64 c1) (w64 (c2 - c1)) False pa) (w64 c1) False)
     (pre @ [(c1, c2 - c1, False)] @ post) fl U'"
proof -
  from hi have hb: "heap_blocks s (pre @ mid @ post)"
    by (simp add: heap_inv_def)
  note g = heap_geom [OF hb]
  note sp = heap_inv_split [OF hb c1 mid]
  note cs = chain_span [OF mid ne]
  let ?n = "c2 - c1"
  have n: "32 \<le> ?n" "16 dvd ?n" "c1 + ?n = c2" "c1 + ?n - 8 = c2 - 8"
    using cs by simp_all
  define s2 where "s2 = write_block s (w64 c1) (w64 ?n) False pa"
  define m1 where "m1 = store64 (store64 (mem s) (w64 c1) (pack (w64 ?n) False pa))
      (w64 (c2 - 8)) (pack (w64 ?n) False pa)"
  have m2: "mem s2 = m1"
    unfolding s2_def m1_def using n by (simp add: write_block_mem)
  have vf: "va (c2 - 8)"
    using sp(8) n by (intro va_sub) simp_all
  have ld: "load64 m1 (w64 x) =
      (if x = c2 - 8 then pack (w64 ?n) False pa
       else if x = c1 then pack (w64 ?n) False pa
       else load64 (mem s) (w64 x))" if "va x" for x
    using load_store_va [OF vf that] load_store_va [OF sp(7) that]
    by (simp add: m1_def)
  have l1: "load64 m1 (w64 c1) = pack (w64 ?n) False pa"
    using ld [OF sp(7)] by simp
  have l2: "load64 m1 (w64 (c1 + ?n - 8)) = pack (w64 ?n) False pa"
    unfolding n(4) using ld [OF vf] by simp
  have "load64 (mem s2) (w64 c1) = pack (w64 ?n) False pa"
    using l1 by (simp add: m2)
  note h2 = get_header_simps [OF this n(2)]
  have m3: "mem (update_next_prev_alloc s2 (w64 c1) False) = store64 m1 (w64 c2)
      (pack (extract_size (load64 m1 (w64 c2))) (extract_alloc (load64 m1 (w64 c2))) False)"
    by (simp add: update_next_prev_alloc_mem [OF h2(1)] m2 n(3))
  have "heap_inv (update_next_prev_alloc s2 (w64 c1) False) (pre @ [(c1, ?n, False)] @ post) fl U'"
  proof (rule retag_next [OF hi c1 mid _ _ _ _ _ _ m3 refl _ _ _ um _ UU])
    show "chain c1 [(c1, ?n, False)] c2" using n by simp
    show "\<forall>a. va a \<longrightarrow> a < c1 \<or> c2 \<le> a \<longrightarrow> load64 m1 (w64 a) = load64 (mem s) (w64 a)"
      using ld n(1) by auto
    show "hdrs m1 (last_alloc True pre) [(c1, ?n, False)]"
      unfolding hdrs.simps l1 l2 using n(2) by (simp add: pa extract_pack_w64)
    show "\<forall>(b, sz, al) \<in> set [(c1, ?n, False)]. al \<or> b \<in> U'" using cU by simp
  qed (simp_all add: s2_def)
  then show ?thesis by (simp add: s2_def)
qed

lemma update_next_inv:
  assumes hi: "heap_inv s (pre @ [(b, sz, al)] @ post) fl U"
    and c1: "chain (first_addr s) pre b" and u: "al \<or> b \<in> U"
  shows "heap_inv (update_next_prev_alloc s (w64 b) al) (pre @ [(b, sz, al)] @ post) fl U"
proof -
  from hi have hb: "heap_blocks s (pre @ [(b, sz, al)] @ post)"
    by (simp add: heap_inv_def)
  have m: "(b, sz, al) \<in> set (pre @ [(b, sz, al)] @ post)" by simp
  note v = inv_blockD [OF hb m]
  have mid: "chain b [(b, sz, al)] (b + sz)" using v by simp
  note sp = heap_inv_split [OF hb c1 mid]
  have m3: "mem (update_next_prev_alloc s (w64 b) al) = store64 (mem s) (w64 (b + sz))
      (pack (extract_size (load64 (mem s) (w64 (b + sz))))
         (extract_alloc (load64 (mem s) (w64 (b + sz)))) al)"
    by (simp add: update_next_prev_alloc_mem [OF inv_header(1) [OF hb m]])
  show ?thesis
  proof (rule retag_next [OF hi c1 mid mid _ _ _ _ _ m3 refl])
    show "hdrs (mem s) (last_alloc True pre) [(b, sz, al)]" by (rule sp(10))
    show "\<forall>(x, n, a) \<in> set [(b, sz, al)]. a \<or> x \<in> U"
      using u by simp
  qed (use u in simp_all)
qed

section \<open>Coalescing\<close>

lemma allocd_simps [simp]:
  "allocd [] = {}"
  "allocd ((b, sz, True) # bl) = insert (b, sz) (allocd bl)"
  "allocd ((b, sz, False) # bl) = allocd bl"
  "allocd (xs @ ys) = allocd xs \<union> allocd ys"
  by (auto simp add: allocd_def)

lemma next_read:
  assumes hb: "heap_blocks s (pre @ [(b, sz, al)] @ post)"
    and c1: "chain (first_addr s) pre b"
  shows "find_next s (w64 b) = w64 (b + sz)"
    and "get_alloc s (w64 (b + sz)) = (post = [] \<or> snd (snd (hd post)))"
    and "get_size s (w64 (b + sz)) = (if post = [] then 0 else w64 (fst (snd (hd post))))"
    and "get_prev_alloc s (w64 (b + sz)) = al"
    and "get_prev_alloc s (w64 b) = last_alloc True pre"
    and "get_size s (w64 b) = w64 sz"
    and "post \<noteq> [] \<Longrightarrow> fst (hd post) = b + sz"
proof -
  have m: "(b, sz, al) \<in> set (pre @ [(b, sz, al)] @ post)" by simp
  note v = inv_blockD [OF hb m]
  have mid: "chain b [(b, sz, al)] (b + sz)" using v by simp
  note sp = heap_inv_split [OF hb c1 mid]
  show gs: "get_size s (w64 b) = w64 sz" by (rule inv_header(1) [OF hb m])
  then show "find_next s (w64 b) = w64 (b + sz)"
    by (simp add: find_next_def w64_add)
  have t: "tl_ok (mem s) al post (epi_addr s)" using sp(9) by simp
  note f = tl_ok_first [OF sp(1) t]
  show "get_alloc s (w64 (b + sz)) = (post = [] \<or> snd (snd (hd post)))"
    and "get_size s (w64 (b + sz)) = (if post = [] then 0 else w64 (fst (snd (hd post))))"
    and "get_prev_alloc s (w64 (b + sz)) = al"
    using f by (simp_all add: get_alloc_def get_size_def get_prev_alloc_def header_def)
  have "load64 (mem s) (w64 b) = pack (w64 sz) al (last_alloc True pre)"
    using sp(10) by simp
  from get_header_simps(3) [OF this v(2)]
  show "get_prev_alloc s (w64 b) = last_alloc True pre" .
  show "fst (hd post) = b + sz" if "post \<noteq> []"
    using sp(1) that by (cases post) auto
qed

lemma prev_read:
  assumes hb: "heap_blocks s (pre @ [(b, sz, al)] @ post)"
    and c1: "chain (first_addr s) pre b"
  shows "(if find_prev s (w64 b) = NULL then True else get_prev_alloc s (w64 b))
      = last_alloc True pre"
    and "\<not> last_alloc True pre \<Longrightarrow>
      \<exists>pre' p psz. pre = pre' @ [(p, psz, False)] \<and> find_prev s (w64 b) = w64 p \<and> p + psz = b"
proof -
  have m: "(b, sz, al) \<in> set (pre @ [(b, sz, al)] @ post)" by simp
  note v = inv_blockD [OF hb m]
  note g = heap_geom [OF hb]
  note nr = next_read [OF hb c1]
  have b8: "w64 b - 8 = w64 (b - 8)"
    using v(3) by (simp add: w64_sub_numeral)
  have "(if find_prev s (w64 b) = NULL then True else get_prev_alloc s (w64 b))
      = last_alloc True pre
    \<and> (\<not> last_alloc True pre \<longrightarrow>
      (\<exists>pre' p psz. pre = pre' @ [(p, psz, False)] \<and> find_prev s (w64 b) = w64 p \<and> p + psz = b))"
  proof (cases pre rule: rev_cases)
    case Nil
    then have "b = first_addr s" using c1 by simp
    then have "w64 (b - 8) = mem_start_brk s" using g(5) by simp
    moreover have "load64 (mem s) (mem_start_brk s) = pack 0 True True"
      using hb by (simp add: heap_blocks_def)
    ultimately have "find_prev s (w64 b) = NULL"
      by (simp add: find_prev_def find_prev_footer_def Let_def b8 extract_pack_0)
    then show ?thesis using Nil by simp
  next
    case (snoc pre' x)
    obtain p psz pal where x: "x = (p, psz, pal)" by (cases x)
    from c1 snoc x have pb: "p + psz = b"
      by (auto simp add: chain_append)
    have mp: "(p, psz, pal) \<in> set (pre @ [(b, sz, al)] @ post)"
      using snoc x by simp
    note vp = inv_blockD [OF hb mp]
    have la: "last_alloc True pre = pal" using snoc x by simp
    show ?thesis
    proof (cases pal)
      case True
      then show ?thesis using la nr(5) by simp
    next
      case False
      from inv_header(3) [OF hb mp] False pb
      have f: "extract_size (load64 (mem s) (w64 (b - 8))) = w64 psz" by simp
      have "psz < 2 ^ 64" using vp(4) g(2) by simp
      then have nz: "w64 psz \<noteq> 0" using vp(1) by (simp add: w64_eq_0)
      have "w64 (b - 8) + 8 - w64 psz = w64 (b - 8 + 8 - psz)"
        using pb by (simp add: w64_add_numeral w64_sub)
      also have "b - 8 + 8 - psz = p" using pb v(3) by simp
      finally have "find_prev s (w64 b) = w64 p"
        using nz f
        by (simp add: find_prev_def find_prev_footer_def Let_def b8 footer_to_header_def wsize_def)
      moreover have "w64 p \<noteq> 0" by (rule inv_block_ptr [OF hb mp])
      ultimately show ?thesis
        using False la nr(5) snoc x pb by simp
    qed
  qed
  then show "(if find_prev s (w64 b) = NULL then True else get_prev_alloc s (w64 b))
      = last_alloc True pre"
    and "\<not> last_alloc True pre \<Longrightarrow>
      \<exists>pre' p psz. pre = pre' @ [(p, psz, False)] \<and> find_prev s (w64 b) = w64 p \<and> p + psz = b"
    by simp_all
qed

lemma remove_from_list_hinv:
  assumes "heap_inv s bl fl U" "(x, sz, False) \<in> set bl" "x \<notin> U"
  shows "\<exists>fl'. heap_inv (remove_from_list s (w64 x)) bl fl' (insert x U)"
  using remove_from_list_inv [of s bl fl U x sz] assms
  by (auto simp add: heap_inv_def)

lemma add_to_list_hinv:
  assumes "heap_inv s bl fl U" "(x, sz, False) \<in> set bl" "x \<in> U"
  shows "\<exists>fl'. heap_inv (add_to_list s (w64 x)) bl fl' (U - {x})"
  using add_to_list_inv [of s bl fl U x sz] assms
  by (auto simp add: heap_inv_def)

lemma coalesce_block_fields [simp]:
  "mem_start_brk (fst (coalesce_block s b)) = mem_start_brk s"
  "mem_brk (fst (coalesce_block s b)) = mem_brk s"
  "mem_max_addr (fst (coalesce_block s b)) = mem_max_addr s"
  "heap_start (fst (coalesce_block s b)) = heap_start s"
  by (simp_all add: coalesce_block_def Let_def)

lemma coalesce_case1:
  assumes hi: "heap_inv s (pre @ [(b, sz, False)] @ post) fl {b}"
    and c1: "chain (first_addr s) pre b"
    and pa: "last_alloc True pre" and na: "post = [] \<or> snd (snd (hd post))"
  shows "\<exists>s'. coalesce_block s (w64 b) = (s', w64 b)
      \<and> heap_inv s' (pre @ [(b, sz, False)] @ post) fl {b}"
proof -
  from hi have hb: "heap_blocks s (pre @ [(b, sz, False)] @ post)"
    by (simp add: heap_inv_def)
  have m: "(b, sz, False) \<in> set (pre @ [(b, sz, False)] @ post)" by simp
  note nr = next_read [OF hb c1]
  note pr = prev_read [OF hb c1]
  have nz: "w64 b \<noteq> 0" by (rule inv_block_ptr [OF hb m])
  have "coalesce_block s (w64 b) = (update_next_prev_alloc s (w64 b) False, w64 b)"
    using nz pa na by (simp add: coalesce_block_def Let_def pr(1) nr(1,2))
  moreover have "heap_inv (update_next_prev_alloc s (w64 b) False)
      (pre @ [(b, sz, False)] @ post) fl {b}"
    by (rule update_next_inv [OF hi c1]) simp
  ultimately show ?thesis by simp
qed

lemma coalesce_case2:
  assumes hi: "heap_inv s (pre @ [(b, sz, False)] @ (n, nsz, False) # post) fl {b}"
    and c1: "chain (first_addr s) pre b"
    and pa: "last_alloc True pre"
  shows "\<exists>s' fl'. coalesce_block s (w64 b) = (s', w64 b)
      \<and> heap_inv s' (pre @ [(b, sz + nsz, False)] @ post) fl' {b}"
proof -
  let ?bl = "pre @ [(b, sz, False)] @ (n, nsz, False) # post"
  from hi have hb: "heap_blocks s ?bl"
    by (simp add: heap_inv_def)
  have m: "(b, sz, False) \<in> set ?bl" and mn: "(n, nsz, False) \<in> set ?bl" by simp_all
  note nr = next_read [OF hb c1]
  note pr = prev_read [OF hb c1]
  note v = inv_blockD [OF hb m] and vn = inv_blockD [OF hb mn]
  have n: "n = b + sz" using nr(7) by simp
  have nz: "w64 b \<noteq> 0" by (rule inv_block_ptr [OF hb m])
  have fn: "find_next s (w64 b) = w64 n" using nr(1) n by simp
  have ga: "get_alloc s (w64 n) = False" using nr(2) n by simp
  have gs: "get_size s (w64 n) = w64 nsz" using nr(3) n by simp
  define s1 where "s1 = remove_from_list s (w64 n)"
  have "n \<notin> {b}" using n v(1) by simp
  from remove_from_list_hinv [OF hi mn this] obtain fl1 where
    hi1: "heap_inv s1 ?bl fl1 {n, b}" by (auto simp add: s1_def)
  have co: "coalesce_block s (w64 b) =
      (update_next_prev_alloc (write_block s1 (w64 b) (w64 (sz + nsz)) False True) (w64 b) False,
       w64 b)"
    using nz pa
    by (simp add: coalesce_block_def Let_def pr(1) fn ga gs nr(6) s1_def w64_add)
  have hi1': "heap_inv s1 (pre @ [(b, sz, False), (n, nsz, False)] @ post) fl1 {n, b}"
    using hi1 by simp
  have "heap_inv
     (update_next_prev_alloc (write_block s1 (w64 b) (w64 (b + (sz + nsz) - b)) False True)
        (w64 b) False)
     (pre @ [(b, b + (sz + nsz) - b, False)] @ post) fl1 {b}"
  proof (rule merge_inv [OF hi1'])
    show "chain (first_addr s1) pre b" using c1 by (simp add: s1_def)
    show "chain b [(b, sz, False), (n, nsz, False)] (b + (sz + nsz))"
      using v vn n by (simp add: add.assoc)
    show "\<forall>x. x < b \<or> b + (sz + nsz) \<le> x \<longrightarrow> (x \<in> {b} \<longleftrightarrow> x \<in> {n, b})"
      using n vn(1) by auto
    show "True = last_alloc True pre" using pa by simp
  qed simp_all
  then show ?thesis using co by auto
qed

lemma coalesce_case3:
  assumes hi: "heap_inv s ((pre @ [(p, psz, False)]) @ [(b, sz, False)] @ post) fl {b}"
    and c1: "chain (first_addr s) (pre @ [(p, psz, False)]) b"
    and na: "post = [] \<or> snd (snd (hd post))"
  shows "\<exists>s' fl'. coalesce_block s (w64 b) = (s', w64 p)
      \<and> heap_inv s' (pre @ [(p, psz + sz, False)] @ post) fl' {p}"
proof -
  let ?bl = "(pre @ [(p, psz, False)]) @ [(b, sz, False)] @ post"
  from hi have hb: "heap_blocks s ?bl"
    by (simp add: heap_inv_def)
  have m: "(b, sz, False) \<in> set ?bl" and mp: "(p, psz, False) \<in> set ?bl" by simp_all
  note nr = next_read [OF hb c1]
  note pr = prev_read [OF hb c1]
  note v = inv_blockD [OF hb m] and vp = inv_blockD [OF hb mp]
  from c1 have cp: "chain (first_addr s) pre p" and pb: "p + psz = b"
    by (auto simp add: chain_append)
  have fp: "find_prev s (w64 b) = w64 p"
    using pr(2) by auto
  have nzp: "w64 p \<noteq> 0" by (rule inv_block_ptr [OF hb mp])
  have gpa: "get_prev_alloc s (w64 b) = False" using nr(5) by simp
  have nz: "w64 b \<noteq> 0" by (rule inv_block_ptr [OF hb m])
  define s1 where "s1 = remove_from_list s (w64 p)"
  have "p \<notin> {b}" using pb vp(1) by simp
  from remove_from_list_hinv [OF hi mp this] obtain fl1 where
    hi1: "heap_inv s1 ?bl fl1 {p, b}" by (auto simp add: s1_def)
  then have hb1: "heap_blocks s1 (pre @ [(p, psz, False)] @ (b, sz, False) # post)"
    by (simp add: heap_inv_def)
  have cp1: "chain (first_addr s1) pre p" using cp by (simp add: s1_def)
  note nrp = next_read [OF hb1 cp1]
  have gp: "get_size s (w64 p) = w64 psz" by (rule inv_header(1) [OF hb mp])
  have co: "coalesce_block s (w64 b) =
      (update_next_prev_alloc
         (write_block s1 (w64 p) (w64 (sz + psz)) False (last_alloc True pre)) (w64 p) False,
       w64 p)"
    using nz nzp na
    by (simp add: coalesce_block_def Let_def gpa nr(1,2,6) fp gp s1_def [symmetric] nrp(5)
        w64_add)
  have hi1': "heap_inv s1 (pre @ [(p, psz, False), (b, sz, False)] @ post) fl1 {p, b}"
    using hi1 by simp
  have "heap_inv
     (update_next_prev_alloc
        (write_block s1 (w64 p) (w64 (p + (psz + sz) - p)) False (last_alloc True pre))
        (w64 p) False)
     (pre @ [(p, p + (psz + sz) - p, False)] @ post) fl1 {p}"
  proof (rule merge_inv [OF hi1'])
    show "chain (first_addr s1) pre p" by (rule cp1)
    show "chain p [(p, psz, False), (b, sz, False)] (p + (psz + sz))"
      using v vp pb by (simp add: add.assoc)
    show "\<forall>x. x < p \<or> p + (psz + sz) \<le> x \<longrightarrow> (x \<in> {p} \<longleftrightarrow> x \<in> {p, b})"
      using pb v(1) by auto
  qed simp_all
  then show ?thesis using co by (auto simp add: add.commute)
qed

lemma coalesce_case4:
  assumes hi: "heap_inv s ((pre @ [(p, psz, False)]) @ [(b, sz, False)] @ (n, nsz, False) # post)
      fl {b}"
    and c1: "chain (first_addr s) (pre @ [(p, psz, False)]) b"
  shows "\<exists>s' fl'. coalesce_block s (w64 b) = (s', w64 p)
      \<and> heap_inv s' (pre @ [(p, psz + sz + nsz, False)] @ post) fl' {p}"
proof -
  let ?bl = "(pre @ [(p, psz, False)]) @ [(b, sz, False)] @ (n, nsz, False) # post"
  from hi have hb: "heap_blocks s ?bl"
    by (simp add: heap_inv_def)
  have m: "(b, sz, False) \<in> set ?bl" and mp: "(p, psz, False) \<in> set ?bl"
    and mn: "(n, nsz, False) \<in> set ?bl" by simp_all
  note nr = next_read [OF hb c1]
  note pr = prev_read [OF hb c1]
  note v = inv_blockD [OF hb m] and vp = inv_blockD [OF hb mp] and vn = inv_blockD [OF hb mn]
  from c1 have cp: "chain (first_addr s) pre p" and pb: "p + psz = b"
    by (auto simp add: chain_append)
  have n: "n = b + sz" using nr(7) by simp
  have fp: "find_prev s (w64 b) = w64 p"
    using pr(2) by auto
  have nzp: "w64 p \<noteq> 0" by (rule inv_block_ptr [OF hb mp])
  have gpa: "get_prev_alloc s (w64 b) = False" using nr(5) by simp
  have nz: "w64 b \<noteq> 0" by (rule inv_block_ptr [OF hb m])
  define s1 where "s1 = remove_from_list s (w64 p)"
  have "p \<notin> {b}" using pb vp(1) by simp
  from remove_from_list_hinv [OF hi mp this] obtain fl1 where
    hi1: "heap_inv s1 ?bl fl1 {p, b}" by (auto simp add: s1_def)
  then have hb1: "heap_blocks s1 ?bl"
    by (simp add: heap_inv_def)
  have c11: "chain (first_addr s1) (pre @ [(p, psz, False)]) b"
    using c1 by (simp add: s1_def)
  note nr1 = next_read [OF hb1 c11]
  have fn: "find_next s (w64 b) = w64 n" using nr(1) n by simp
  have ga: "get_alloc s (w64 n) = False" using nr(2) n by simp
  have gs: "get_size s (w64 n) = w64 nsz" using nr(3) n by simp
  have fn1: "find_next s1 (w64 b) = w64 n" using nr1(1) n by simp
  define s2 where "s2 = remove_from_list s1 (w64 n)"
  have "n \<notin> {p, b}" using n pb v(1) vp(1) by simp
  from remove_from_list_hinv [OF hi1 mn this] obtain fl2 where
    hi2: "heap_inv s2 ?bl fl2 {n, p, b}" by (auto simp add: s2_def)
  then have hb2: "heap_blocks s2 (pre @ [(p, psz, False)] @ (b, sz, False) # (n, nsz, False) # post)"
    by (simp add: heap_inv_def)
  have cp2: "chain (first_addr s2) pre p" using cp by (simp add: s2_def s1_def)
  note nrp = next_read [OF hb2 cp2]
  have gp: "get_size s (w64 p) = w64 psz" by (rule inv_header(1) [OF hb mp])
  have co: "coalesce_block s (w64 b) =
      (update_next_prev_alloc
         (write_block s2 (w64 p) (w64 (sz + (psz + nsz))) False (last_alloc True pre))
         (w64 p) False,
       w64 p)"
    using nz nzp
    by (simp add: coalesce_block_def Let_def gpa fn ga gs nr(6) fp gp s1_def [symmetric] fn1
        s2_def [symmetric] nrp(5) w64_add)
  have hi2': "heap_inv s2 (pre @ [(p, psz, False), (b, sz, False), (n, nsz, False)] @ post)
      fl2 {n, p, b}"
    using hi2 by simp
  have "heap_inv
     (update_next_prev_alloc
        (write_block s2 (w64 p) (w64 (p + (psz + sz + nsz) - p)) False (last_alloc True pre))
        (w64 p) False)
     (pre @ [(p, p + (psz + sz + nsz) - p, False)] @ post) fl2 {p}"
  proof (rule merge_inv [OF hi2'])
    show "chain (first_addr s2) pre p" by (rule cp2)
    show "chain p [(p, psz, False), (b, sz, False), (n, nsz, False)] (p + (psz + sz + nsz))"
      using v vp vn pb n by (simp add: add.assoc)
    show "\<forall>x. x < p \<or> p + (psz + sz + nsz) \<le> x \<longrightarrow> (x \<in> {p} \<longleftrightarrow> x \<in> {n, p, b})"
      using pb n v(1) vn(1) by auto
  qed simp_all
  moreover have e: "sz + (psz + nsz) = psz + sz + nsz" by simp
  note co' = co [unfolded e]
  ultimately show ?thesis using co' by auto
qed

lemma coalesce_block_inv:
  assumes hi: "heap_inv s bl fl {b}" and b: "(b, sz, False) \<in> set bl"
  shows "\<exists>s' b' sz' bl' fl'. coalesce_block s (w64 b) = (s', w64 b')
      \<and> heap_inv s' bl' fl' {b'} \<and> (b', sz', False) \<in> set bl' \<and> sz \<le> sz'
      \<and> allocd bl' = allocd bl"
proof -
  from hi have hb: "heap_blocks s bl" by (simp add: heap_inv_def)
  from heap_blocks_at [OF hb b] obtain pre post where
    bl: "bl = pre @ [(b, sz, False)] @ post" and c1: "chain (first_addr s) pre b"
    by auto
  note hi' = hi [unfolded bl]
  show ?thesis
  proof (cases "last_alloc True pre")
    case pa: True
    show ?thesis
    proof (cases "post = [] \<or> snd (snd (hd post))")
      case True
      from coalesce_case1 [OF hi' c1 pa True] obtain s' where
        "coalesce_block s (w64 b) = (s', w64 b)"
        "heap_inv s' (pre @ [(b, sz, False)] @ post) fl {b}" by blast
      then show ?thesis
        unfolding bl by (intro exI [of _ s'] exI [of _ b] exI [of _ sz]) auto
    next
      case False
      then obtain n nsz post' where post: "post = (n, nsz, False) # post'"
        by (cases post) auto
      from coalesce_case2 [OF hi' [unfolded post] c1 pa] obtain s' fl' where
        "coalesce_block s (w64 b) = (s', w64 b)"
        "heap_inv s' (pre @ [(b, sz + nsz, False)] @ post') fl' {b}" by blast
      then show ?thesis
        unfolding bl post by (intro exI [of _ s'] exI [of _ b] exI [of _ "sz + nsz"]) auto
    qed
  next
    case npa: False
    then obtain pre' p psz where pre: "pre = pre' @ [(p, psz, False)]"
      by (cases pre rule: rev_cases) auto
    show ?thesis
    proof (cases "post = [] \<or> snd (snd (hd post))")
      case True
      from coalesce_case3 [OF hi' [unfolded pre] c1 [unfolded pre] True] obtain s' fl' where
        "coalesce_block s (w64 b) = (s', w64 p)"
        "heap_inv s' (pre' @ [(p, psz + sz, False)] @ post) fl' {p}" by blast
      then show ?thesis
        unfolding bl pre by (intro exI [of _ s'] exI [of _ p] exI [of _ "psz + sz"]) auto
    next
      case False
      then obtain n nsz post' where post: "post = (n, nsz, False) # post'"
        by (cases post) auto
      from coalesce_case4 [OF hi' [unfolded pre post] c1 [unfolded pre]] obtain s' fl' where
        "coalesce_block s (w64 b) = (s', w64 p)"
        "heap_inv s' (pre' @ [(p, psz + sz + nsz, False)] @ post') fl' {p}" by blast
      then show ?thesis
        unfolding bl pre post
        by (intro exI [of _ s'] exI [of _ p] exI [of _ "psz + sz + nsz"]) auto
    qed
  qed
qed

section \<open>The public calls\<close>

lemma allocd_at:
  assumes hb: "heap_blocks s (pre @ [(b, sz, al)] @ post)"
    and c1: "chain (first_addr s) pre b"
  shows "(b, n) \<notin> allocd pre" "(b, n) \<notin> allocd post"
proof -
  have m: "(b, sz, al) \<in> set (pre @ [(b, sz, al)] @ post)" by simp
  note v = inv_blockD [OF hb m]
  have mid: "chain b [(b, sz, al)] (b + sz)" using v by simp
  note sp = heap_inv_split [OF hb c1 mid]
  show "(b, n) \<notin> allocd pre"
    using chain_bounds [OF c1, of b n True] by (auto simp add: allocd_def)
  show "(b, n) \<notin> allocd post"
    using chain_bounds [OF sp(1), of b n True] v(1) by (auto simp add: allocd_def)
qed

lemma payload_ptr:
  assumes "heap_blocks s bl" "(b, sz, al) \<in> set bl"
  shows "w64 (b + 8) \<noteq> 0" "payload_to_header (w64 (b + 8)) = w64 b"
    "header_to_payload (w64 b) = w64 (b + 8)"
proof -
  note v = inv_blockD [OF assms]
  show "w64 (b + 8) \<noteq> 0"
    using v(6) by (intro w64_nonzero) simp_all
  show "payload_to_header (w64 (b + 8)) = w64 b"
    by (simp add: payload_to_header_def w64_sub_numeral)
  show "header_to_payload (w64 b) = w64 (b + 8)"
    by (simp add: header_to_payload_def w64_add_numeral)
qed

lemma free_inv:
  assumes hi: "heap_inv s bl fl {}" and b: "(b, sz, True) \<in> set bl"
  shows "\<exists>bl' fl'. heap_inv (free s (w64 (b + 8))) bl' fl' {}
      \<and> allocd bl' = allocd bl - {(b, sz)}"
proof -
  from hi have hb: "heap_blocks s bl" by (simp add: heap_inv_def)
  from heap_blocks_at [OF hb b] obtain pre post where
    bl: "bl = pre @ [(b, sz, True)] @ post" and c1: "chain (first_addr s) pre b"
    by auto
  note v = inv_blockD [OF hb b]
  note pp = payload_ptr [OF hb b]
  note nr = next_read [OF hb [unfolded bl] c1]
  define s2 where "s2 = update_next_prev_alloc
      (write_block s (w64 b) (w64 (b + sz - b)) False (last_alloc True pre)) (w64 b) False"
  have hi2: "heap_inv s2 (pre @ [(b, b + sz - b, False)] @ post) fl {b}"
    unfolding s2_def
  proof (rule merge_inv [OF hi [unfolded bl] c1])
    show "chain b [(b, sz, True)] (b + sz)" using v by simp
    show "\<forall>x. x < b \<or> b + sz \<le> x \<longrightarrow> (x \<in> {b} \<longleftrightarrow> x \<in> {})" using v(1) by auto
  qed simp_all
  then have hi2': "heap_inv s2 (pre @ [(b, sz, False)] @ post) fl {b}" by simp
  have m2: "(b, sz, False) \<in> set (pre @ [(b, sz, False)] @ post)" by simp
  from coalesce_block_inv [OF hi2' m2] obtain s3 b' sz' bl' fl' where
    co: "coalesce_block s2 (w64 b) = (s3, w64 b')"
    and hi3: "heap_inv s3 bl' fl' {b'}" and m3: "(b', sz', False) \<in> set bl'"
    and al: "allocd bl' = allocd (pre @ [(b, sz, False)] @ post)"
    by blast
  have fr: "free s (w64 (b + 8)) = add_to_list s3 (w64 b')"
    using pp(1) co by (simp add: free_def Let_def pp(2) nr(5,6) s2_def)
  from add_to_list_hinv [OF hi3 m3] obtain fl'' where
    "heap_inv (add_to_list s3 (w64 b')) bl' fl'' {}" by auto
  moreover have "allocd bl' = allocd bl - {(b, sz)}"
    using allocd_at [OF hb [unfolded bl] c1, of sz] by (auto simp add: al bl)
  ultimately show ?thesis using fr by auto
qed

section \<open>Extending the heap\<close>

lemma round_up_props:
  "16 dvd unat (round_up x dsize)" "32 \<le> unat (round_up x dsize)"
proof -
  define a :: "64 word" where "a = 16 * ((x + 15) div 16)"
  have "unat a = (16 * unat ((x + 15) div 16)) mod 2 ^ 64"
    by (simp add: a_def unat_word_ariths)
  moreover have "(16::nat) dvd 2 ^ 64" by simp
  ultimately have d: "16 dvd unat a"
    by (simp add: dvd_mod)
  have r: "round_up x dsize = (if a < 32 then 32 else a)"
    by (simp add: round_up_def Let_def dsize_def wsize_def min_block_size_def a_def)
  show "16 dvd unat (round_up x dsize)"
    using d by (simp add: r)
  show "32 \<le> unat (round_up x dsize)"
    by (simp add: r word_less_nat_alt)
qed

lemma heap_lists_retag:
  assumes hl: "heap_lists s bl fl U"
    and sl: "seg_list s' = seg_list s"
    and ag: "\<forall>j<list_length. \<forall>y \<in> set (fl j).
        load64 (mem s') (w64 (y + 8)) = load64 (mem s) (w64 (y + 8))
        \<and> load64 (mem s') (w64 (y + 16)) = load64 (mem s) (w64 (y + 16))"
    and st: "\<forall>b sz. (b, sz, False) \<in> set bl' \<and> b \<notin> U' \<longleftrightarrow> (b, sz, False) \<in> set bl \<and> b \<notin> U"
  shows "heap_lists s' bl' fl U'"
  unfolding heap_lists_def
proof (intro allI impI)
  fix j assume j: "j < list_length"
  note lj = inv_list [OF hl j]
  have p8: "path 8 (mem s') (seg_list s j) (fl j) = path 8 (mem s) (seg_list s j) (fl j)"
    using ag j by (intro path_frame) simp
  have p16: "path 16 (mem s') (lastp (fl j)) (rev (fl j))
      = path 16 (mem s) (lastp (fl j)) (rev (fl j))"
    using ag j by (intro path_frame) simp
  have e: "{b. \<exists>sz. (b, sz, False) \<in> set bl' \<and> find_index (w64 sz) = j \<and> b \<notin> U'}
      = {b. \<exists>sz. (b, sz, False) \<in> set bl \<and> find_index (w64 sz) = j \<and> b \<notin> U}"
    using st by blast
  show "path 8 (mem s') (seg_list s' j) (fl j)
      \<and> path 16 (mem s') (lastp (fl j)) (rev (fl j))
      \<and> distinct (fl j)
      \<and> set (fl j) = {b. \<exists>sz. (b, sz, False) \<in> set bl' \<and> find_index (w64 sz) = j \<and> b \<notin> U'}"
    unfolding e sl p8 p16 using lj by simp
qed

lemma extend_heap_grow:
  assumes hi: "heap_inv s bl fl {}"
    and n: "32 \<le> n" "16 dvd n" "unat (mem_brk s) + n \<le> unat (mem_max_addr s)"
    and s1: "s1 = s\<lparr>mem_brk := mem_brk s + w64 n\<rparr>"
  defines "e \<equiv> epi_addr s"
  defines "s3 \<equiv> write_epilogue
      (write_block s1 (w64 e) (w64 n) False (get_prev_alloc s1 (w64 e))) (w64 (e + n))"
  shows "heap_inv s3 (bl @ [(e, n, False)]) fl {e}"
proof -
  from hi have hb: "heap_blocks s bl" and hl: "heap_lists s bl fl {}"
    by (simp_all add: heap_inv_def)
  note g = heap_geom [OF hb]
  from hb have geo: "16 dvd unat (mem_start_brk s)" "unat (mem_max_addr s) < 2 ^ 63"
    "heap_start s = mem_start_brk s + 8" "unat (mem_start_brk s) + 16 \<le> unat (mem_brk s)"
    and pro: "load64 (mem s) (mem_start_brk s) = pack 0 True True"
    by (simp_all add: heap_blocks_def)
  have e8: "e + 8 = unat (mem_brk s)" using geo(4) by (simp add: e_def)
  have lim: "e + n + 8 < 2 ^ 63" using n(3) geo(2) e8 by simp
  have brk': "unat (mem_brk s1) = unat (mem_brk s) + n"
  proof -
    have "mem_brk s1 = w64 (unat (mem_brk s) + n)"
      by (simp add: s1 w64_add [symmetric] w64_unat)
    moreover have "unat (mem_brk s) + n < 2 ^ 64" using n(3) geo(2) by simp
    ultimately show ?thesis by (simp add: unat_w64)
  qed
  have ve: "va e" "e mod 16 = 8"
    using chain_end_va [OF g(3) g(1) g(2)] by (simp_all add: e_def)
  have vf: "va (e + n - 8)"
  proof -
    have "va (e + (n - 8))"
      using ve(1) n lim dvd_16_8 [OF n(2)] by (intro va_add) simp_all
    then show ?thesis using n(1) by simp
  qed
  have vn: "va (e + n)"
    using ve(1) n lim dvd_16_8 [OF n(2)] by (intro va_add) simp_all
  have ep: "load64 (mem s) (w64 e) = pack 0 True (last_alloc True bl)"
    using g(8) by (simp add: tl_ok_def e_def)
  have gpa: "get_prev_alloc s1 (w64 e) = last_alloc True bl"
    using ep by (simp add: get_prev_alloc_def header_def s1 extract_pack_0)
  have ms1: "mem s1 = mem s" by (simp add: s1)
  define W where "W = pack (w64 n) False (last_alloc True bl)"
  have m3: "mem s3 = store64 (store64 (store64 (mem s) (w64 e) W) (w64 (e + n - 8)) W)
      (w64 (e + n)) (pack 0 True False)"
    using n by (simp add: s3_def gpa write_epilogue_def set_header_def write_block_mem W_def ms1)
  have ld: "load64 (mem s3) (w64 x) =
      (if x = e + n then pack 0 True False
       else if x = e + n - 8 then W
       else if x = e then W
       else load64 (mem s) (w64 x))" if "va x" for x
    using load_store_va [OF vn that] load_store_va [OF vf that] load_store_va [OF ve(1) that]
    by (simp add: m3)
  have low: "load64 (mem s3) (w64 x) = load64 (mem s) (w64 x)" if "va x" "x < e" for x
  proof -
    have "x \<noteq> e + n" "x \<noteq> e + n - 8" "x \<noteq> e"
      using that(2) n(1) by arith+
    then show ?thesis using ld [OF that(1)] by simp
  qed
  have flds: "mem_start_brk s3 = mem_start_brk s" "mem_max_addr s3 = mem_max_addr s"
    "heap_start s3 = heap_start s" "seg_list s3 = seg_list s" "mem_brk s3 = mem_brk s1"
    by (simp_all add: s3_def write_epilogue_def set_header_def s1)
  have epi': "epi_addr s3 = e + n"
    using e8 by (simp add: flds brk')
  have w': "mem_brk s3 - 8 = w64 (e + n)"
  proof -
    have "8 \<le> unat (mem_brk s3)" using geo(4) by (simp add: flds brk')
    from w64_unat_sub8 [OF this] show ?thesis by (simp add: epi')
  qed
  have ne: "e \<noteq> e + n - 8" "e \<noteq> e + n" "e + n - 8 \<noteq> e + n"
    using n(1) by arith+
  have l1: "load64 (mem s3) (w64 e) = W"
    using ld [OF ve(1)] ne by simp
  have l2: "load64 (mem s3) (w64 (e + n - 8)) = W"
    using ld [OF vf] ne by simp
  have l3: "load64 (mem s3) (w64 (e + n)) = pack 0 True False"
    using ld [OF vn] by simp
  have hb3: "heap_blocks s3 (bl @ [(e, n, False)])"
    unfolding heap_blocks_def
  proof (intro conjI)
    show "16 dvd unat (mem_start_brk s3)" using geo by (simp add: flds)
    show "unat (mem_brk s3) \<le> unat (mem_max_addr s3)" using n(3) by (simp add: flds brk')
    show "unat (mem_max_addr s3) < 2 ^ 63" using geo by (simp add: flds)
    show "heap_start s3 = mem_start_brk s3 + 8" using geo by (simp add: flds)
    show "unat (mem_start_brk s3) + 16 \<le> unat (mem_brk s3)" using geo by (simp add: flds brk')
    show "chain (first_addr s3) (bl @ [(e, n, False)]) (epi_addr s3)"
      unfolding epi' using g(3) n by (auto simp add: chain_append flds e_def)
    have "unat (mem_start_brk s) < e" using geo(4) by (simp add: e_def)
    from low [OF g(6) this] show "load64 (mem s3) (mem_start_brk s3) = pack 0 True True"
      using pro g(5) by (simp add: flds)
    have "hdrs (mem s3) True bl = hdrs (mem s) True bl"
      using low by (intro hdrs_frame_chain [OF g(3) g(1) g(2)]) (simp add: e_def)
    then show "hdrs (mem s3) True (bl @ [(e, n, False)])"
      unfolding hdrs_append hdrs.simps l1 l2 using g(7) n(2)
      by (simp add: W_def extract_pack_w64)
    show "load64 (mem s3) (mem_brk s3 - 8) = pack 0 True (last_alloc True (bl @ [(e, n, False)]))"
      unfolding w' l3 by simp
  qed
  have hl3: "heap_lists s3 (bl @ [(e, n, False)]) fl {e}"
  proof (rule heap_lists_retag [OF hl])
    show "seg_list s3 = seg_list s" by (rule flds)
    show "\<forall>j<list_length. \<forall>y \<in> set (fl j).
        load64 (mem s3) (w64 (y + 8)) = load64 (mem s) (w64 (y + 8))
        \<and> load64 (mem s3) (w64 (y + 16)) = load64 (mem s) (w64 (y + 16))"
    proof (intro allI impI ballI)
      fix j y assume j: "j < list_length" and y: "y \<in> set (fl j)"
      from inv_nodeD [OF hl j y] obtain sy where m: "(y, sy, False) \<in> set bl" by blast
      note v = inv_blockD [OF hb m]
      have "y + 8 < e" "y + 16 < e" using v(1,4) e8 by simp_all
      then show "load64 (mem s3) (w64 (y + 8)) = load64 (mem s) (w64 (y + 8))
          \<and> load64 (mem s3) (w64 (y + 16)) = load64 (mem s) (w64 (y + 16))"
        using low v(6,7) by simp
    qed
    show "\<forall>b sz. (b, sz, False) \<in> set (bl @ [(e, n, False)]) \<and> b \<notin> {e}
        \<longleftrightarrow> (b, sz, False) \<in> set bl \<and> b \<notin> {}"
    proof (intro allI iffI)
      fix b sz assume "(b, sz, False) \<in> set bl \<and> b \<notin> {}"
      then have m: "(b, sz, False) \<in> set bl" by simp
      from inv_blockD(1,4) [OF hb m] e8 m
      show "(b, sz, False) \<in> set (bl @ [(e, n, False)]) \<and> b \<notin> {e}" by simp
    next
      fix b sz assume "(b, sz, False) \<in> set (bl @ [(e, n, False)]) \<and> b \<notin> {e}"
      then show "(b, sz, False) \<in> set bl \<and> b \<notin> {}" by auto
    qed
  qed
  show ?thesis using hb3 hl3 by (simp add: heap_inv_def)
qed

lemma extend_heap_inv:
  assumes hi: "heap_inv s bl fl {}"
  shows "extend_heap s x = (s, NULL)
    \<or> (\<exists>s' b sz bl' fl'. extend_heap s x = (s', w64 b) \<and> heap_inv s' bl' fl' {}
          \<and> (b, sz, False) \<in> set bl' \<and> unat (round_up x dsize) \<le> sz
          \<and> allocd bl' = allocd bl)"
proof (cases "mem_sbrk s (round_up x dsize)")
  case None
  then show ?thesis by (simp add: extend_heap_def Let_def)
next
  case (Some r)
  define n where "n = unat (round_up x dsize)"
  have wn: "round_up x dsize = w64 n" by (simp add: n_def w64_unat)
  have n: "32 \<le> n" "16 dvd n" using round_up_props [of x] by (simp_all add: n_def)
  have un: "unat (w64 n) = n" unfolding wn [symmetric] by (simp add: n_def)
  define s1 where "s1 = s\<lparr>mem_brk := mem_brk s + w64 n\<rparr>"
  from Some have sb: "mem_sbrk s (w64 n) = Some (mem_brk s, s1)"
    and lim: "unat (mem_brk s) + n \<le> unat (mem_max_addr s)"
    by (auto simp add: mem_sbrk_def wn s1_def un split: if_splits)
  from hi have hb: "heap_blocks s bl" by (simp add: heap_inv_def)
  note g = heap_geom [OF hb]
  define e where "e = epi_addr s"
  have blk: "payload_to_header (mem_brk s) = w64 e"
    using g(4) by (simp add: payload_to_header_def e_def)
  define s2 where "s2 = write_block s1 (w64 e) (w64 n) False (get_prev_alloc s1 (w64 e))"
  define s3 where "s3 = write_epilogue s2 (w64 (e + n))"
  have hi3: "heap_inv s3 (bl @ [(e, n, False)]) fl {e}"
    unfolding s3_def s2_def e_def by (rule extend_heap_grow [OF hi n lim s1_def])
  have ve: "va e" using chain_end_va(1) [OF g(3) g(1) g(2)] by (simp add: e_def)
  have "8 \<le> e + n" using n(1) by simp
  from write_block_mem [OF n(2) this, of s1 False]
  have "mem s2 = store64 (store64 (mem s1) (w64 e) (pack (w64 n) False (get_prev_alloc s1 (w64 e))))
      (w64 (e + n - 8)) (pack (w64 n) False (get_prev_alloc s1 (w64 e)))"
    by (simp add: s2_def)
  moreover have "va (e + n - 8)"
  proof -
    have "e + n - 8 = e + (n - 8)" using n(1) by simp
    moreover have "unat (mem_max_addr s) < 2 ^ 63"
      using hb by (simp add: heap_blocks_def)
    then have "e + (n - 8) < 2 ^ 63"
      using lim unfolding e_def by linarith
    ultimately show ?thesis
      using ve n dvd_16_8 [OF n(2)] by (simp add: va_def)
  qed
  moreover have "e + n - 8 \<noteq> e" using n(1) by arith
  ultimately have "load64 (mem s2) (w64 e) = pack (w64 n) False (get_prev_alloc s1 (w64 e))"
    using ve by (simp add: load_store_va load64_store64_same)
  note h2 = get_header_simps [OF this n(2)]
  have nx: "find_next s2 (w64 e) = w64 (e + n)"
    by (simp add: find_next_def h2 w64_add)
  have m: "(e, n, False) \<in> set (bl @ [(e, n, False)])" by simp
  from coalesce_block_inv [OF hi3 m] obtain s4 b' sz' bl' fl' where
    co: "coalesce_block s3 (w64 e) = (s4, w64 b')"
    and hi4: "heap_inv s4 bl' fl' {b'}" and m4: "(b', sz', False) \<in> set bl'"
    and le: "n \<le> sz'" and al: "allocd bl' = allocd (bl @ [(e, n, False)])"
    by blast
  from add_to_list_hinv [OF hi4 m4] obtain fl'' where
    hi5: "heap_inv (add_to_list s4 (w64 b')) bl' fl'' {}" by auto
  have "extend_heap s x = (add_to_list s4 (w64 b'), w64 b')"
    using sb co
    by (simp add: extend_heap_def Let_def wn blk s2_def [symmetric] nx s3_def [symmetric])
  moreover have "n \<le> sz'" by (rule le)
  ultimately have "\<exists>s' b sz bl' fl'. extend_heap s x = (s', w64 b) \<and> heap_inv s' bl' fl' {}
      \<and> (b, sz, False) \<in> set bl' \<and> n \<le> sz \<and> allocd bl' = allocd bl"
    using hi5 m4 al by (intro exI [of _ "add_to_list s4 (w64 b')"] exI [of _ b'] exI [of _ sz']
        exI [of _ bl'] exI [of _ fl'']) simp
  then show ?thesis unfolding n_def by (rule disjI2)
qed

section \<open>Searching and allocating\<close>

lemma path_free_list:
  "path 8 m p xs \<Longrightarrow> \<forall>x \<in> set xs. w64 x \<noteq> 0 \<Longrightarrow> free_list m p (map w64 xs)"
  by (induction xs arbitrary: p) (simp_all add: w64_add_numeral)

lemma first_fit_cases:
  "first_fit m asize bs = 0 \<or> (first_fit m asize bs \<in> set bs \<and> fits m asize (first_fit m asize bs))"
proof (cases "\<exists>b \<in> set bs. fits m asize b")
  case True
  then show ?thesis using first_fit_fits by blast
next
  case False
  then have "find (fits m asize) bs = None"
    by (simp add: find_None_iff)
  then show ?thesis by (simp add: first_fit_def)
qed

lemma find_fit_inv:
  assumes hi: "heap_inv s bl fl {}"
  shows "\<exists>r. find_fit s asize = Some r
      \<and> (r = 0 \<or> (\<exists>b sz. r = w64 b \<and> (b, sz, False) \<in> set bl \<and> unat asize \<le> sz))"
proof -
  from hi have hb: "heap_blocks s bl" and hl: "heap_lists s bl fl {}"
    by (simp_all add: heap_inv_def)
  note g = heap_geom [OF hb]
  define ls where "ls = (\<lambda>i. map w64 (fl i))"
  have fr: "\<forall>i. find_index asize \<le> i \<and> i < list_length \<longrightarrow>
      free_list (mem s) (seg_list s i) (ls i)"
  proof (intro allI impI)
    fix i assume "find_index asize \<le> i \<and> i < list_length"
    then have i: "i < list_length" by simp
    have "\<forall>x \<in> set (fl i). w64 x \<noteq> 0"
    proof
      fix x assume "x \<in> set (fl i)"
      from inv_nodeD [OF hl i this] obtain sx where "(x, sx, False) \<in> set bl" by blast
      from inv_block_ptr [OF hb this] show "w64 x \<noteq> 0" .
    qed
    from path_free_list [OF inv_list(1) [OF hl i] this]
    show "free_list (mem s) (seg_list s i) (ls i)" by (simp add: ls_def)
  qed
  let ?bs = "concat (map ls [find_index asize ..< list_length])"
  have ff: "find_fit s asize = Some (first_fit (mem s) asize ?bs)"
    unfolding find_fit_def by (rule find_fit_from_lists [OF fr])
  from first_fit_cases [of "mem s" asize ?bs]
  have "first_fit (mem s) asize ?bs = 0
      \<or> (\<exists>b sz. first_fit (mem s) asize ?bs = w64 b \<and> (b, sz, False) \<in> set bl \<and> unat asize \<le> sz)"
  proof
    assume "first_fit (mem s) asize ?bs \<in> set ?bs
        \<and> fits (mem s) asize (first_fit (mem s) asize ?bs)"
    then obtain i x where i: "i < list_length" and x: "x \<in> set (fl i)"
      and r: "first_fit (mem s) asize ?bs = w64 x" and f: "fits (mem s) asize (w64 x)"
      by (auto simp add: ls_def)
    from inv_nodeD [OF hl i x] obtain sx where m: "(x, sx, False) \<in> set bl" by blast
    note v = inv_blockD [OF hb m]
    have "sx < 2 ^ 64" using v(4) g(2) by simp
    then have u: "unat (w64 sx) = sx" by (rule unat_w64)
    have "asize \<le> w64 sx"
      using f inv_header(1) [OF hb m] by (simp add: fits_def get_size_def header_def)
    then have "unat asize \<le> sx"
      using u by (simp add: word_le_nat_alt)
    then show ?thesis using r m by blast
  qed simp
  then show ?thesis using ff by simp
qed

lemma round_up_idem:
  assumes "16 dvd unat y" "32 \<le> unat y"
  shows "round_up y dsize = y"
proof -
  define n where "n = y - 8"
  have le: "(8 :: 64 word) \<le> y"
    using assms(2) by (simp add: word_le_nat_alt)
  have un: "unat n = unat y - 8"
    unfolding n_def using le by (simp add: unat_sub)
  have "unat y < 2 ^ 64" using unsigned_less [of y, where 'a = nat] by simp
  with assms(1) have "unat y + 16 \<le> 2 ^ 64"
  proof -
    obtain k where k: "unat y = 16 * k" using assms(1) by auto
    have "16 * k < 16 * (2 ^ 60 :: nat)" using \<open>unat y < 2 ^ 64\<close> k by simp
    then have "k < 2 ^ 60" by simp
    then have "16 * k + 16 \<le> 16 * (2 ^ 60 :: nat)" by simp
    then show ?thesis using k by simp
  qed
  then have b: "unat n + 23 < 2 ^ 64" using un assms(2) by simp
  have "unat (round_up (n + wsize) dsize) = max 32 (16 * ((unat n + 8 + 15) div 16))"
    by (rule round_up_exact [OF b])
  moreover have "n + wsize = y" by (simp add: n_def wsize_def)
  moreover have "unat n + 8 + 15 = unat y + 15" using un assms(2) by simp
  moreover have "16 * ((unat y + 15) div 16) = unat y"
  proof -
    obtain k where k: "unat y = 16 * k" using assms(1) by auto
    have "(16 * k + 15) div 16 = k" by simp
    then show ?thesis using k by simp
  qed
  ultimately have "unat (round_up y dsize) = unat y"
    using assms(2) by simp
  then show ?thesis by (simp add: word_unat_eq_iff)
qed

lemma heap_start_nonnull:
  assumes "heap_blocks s bl"
  shows "heap_start s \<noteq> 0"
proof -
  note g = heap_geom [OF assms]
  have "va (first_addr s)" using g(1,2) chain_le [OF g(3)] by (intro va_tag) simp_all
  then have "w64 (first_addr s) \<noteq> 0" by (intro w64_nonzero) simp_all
  then show ?thesis using inv_words(3) [OF assms] by simp
qed

text \<open>
  \<open>malloc\<close> returns. It returns \<open>NULL\<close> with the allocated blocks as they were, or the
  payload of a block that was not allocated before and is at least as large as the
  adjusted size.
\<close>

lemma malloc_alloc:
  assumes hi: "heap_inv s bl fl {}" and b: "(b, sz, False) \<in> set bl"
    and a: "32 \<le> a" "16 dvd a" "a \<le> sz"
  shows "\<exists>bl' fl' sz'. heap_inv (split_block s (w64 b) (w64 a)) bl' fl' {}
      \<and> (\<forall>k. (b, k) \<notin> allocd bl) \<and> allocd bl' = insert (b, sz') (allocd bl) \<and> a \<le> sz'"
proof -
  from hi have hb: "heap_blocks s bl" by (simp add: heap_inv_def)
  have fresh: "\<forall>k. (b, k) \<notin> allocd bl"
    using inv_same(2) [OF hb b] by (auto simp add: allocd_def)
  from split_block_inv [OF hi b a] obtain pre post mid' fl' where
    bl: "bl = pre @ (b, sz, False) # post"
    and hi': "heap_inv (split_block s (w64 b) (w64 a)) (pre @ mid' @ post) fl' {}"
    and mid': "mid' = [(b, sz, True)] \<or> mid' = [(b, a, True), (b + a, sz - a, False)]"
    by blast
  from mid' show ?thesis
  proof
    assume "mid' = [(b, sz, True)]"
    then have "allocd (pre @ mid' @ post) = insert (b, sz) (allocd bl)"
      by (simp add: bl)
    then show ?thesis using hi' fresh a(3) by blast
  next
    assume "mid' = [(b, a, True), (b + a, sz - a, False)]"
    then have "allocd (pre @ mid' @ post) = insert (b, a) (allocd bl)"
      by (simp add: bl)
    then show ?thesis using hi' fresh by blast
  qed
qed

lemma malloc_inv:
  assumes hi: "heap_inv s bl fl {}"
  shows "\<exists>s' p bl' fl'. malloc s n = Some (s', p) \<and> heap_inv s' bl' fl' {}
      \<and> (p = 0 \<and> allocd bl' = allocd bl
          \<or> (\<exists>b sz. p = w64 (b + 8) \<and> (\<forall>k. (b, k) \<notin> allocd bl)
                \<and> allocd bl' = insert (b, sz) (allocd bl)
                \<and> unat (round_up (n + wsize) dsize) \<le> sz))"
proof (cases "n = 0")
  case True
  from hi have hb: "heap_blocks s bl" by (simp add: heap_inv_def)
  have "malloc s n = Some (s, 0)"
    using True heap_start_nonnull [OF hb] by (simp add: malloc_def)
  then show ?thesis using hi by blast
next
  case False
  from hi have hb: "heap_blocks s bl" by (simp add: heap_inv_def)
  define asize where "asize = round_up (n + wsize) dsize"
  define a where "a = unat asize"
  have wa: "asize = w64 a" by (simp add: a_def w64_unat)
  have a: "32 \<le> a" "16 dvd a"
    using round_up_props [of "n + wsize"] by (simp_all add: a_def asize_def)
  from find_fit_inv [OF hi, of asize] obtain r where
    ff: "find_fit s asize = Some r"
    and r: "r = 0 \<or> (\<exists>b sz. r = w64 b \<and> (b, sz, False) \<in> set bl \<and> a \<le> sz)"
    unfolding a_def by blast
  show ?thesis
  proof (cases "r = 0")
    case rn: False
    with r obtain b sz where rb: "r = w64 b" and m: "(b, sz, False) \<in> set bl" and le: "a \<le> sz"
      by blast
    have ml: "malloc s n = Some (split_block s (w64 b) (w64 a), w64 (b + 8))"
      using False heap_start_nonnull [OF hb] ff rn
      by (simp add: malloc_def Let_def asize_def [symmetric] rb [symmetric] wa [symmetric]
          payload_ptr(3) [OF hb m, folded rb])
    from malloc_alloc [OF hi m a le] obtain bl' fl' sz' where
      "heap_inv (split_block s (w64 b) (w64 a)) bl' fl' {}"
      "\<forall>k. (b, k) \<notin> allocd bl" "allocd bl' = insert (b, sz') (allocd bl)" "a \<le> sz'"
      by blast
    then show ?thesis
      using ml unfolding a_def asize_def by blast
  next
    case rn: True
    define ext where "ext = max_sz asize chunksize"
    have e16: "16 dvd unat ext" "32 \<le> unat ext" "a \<le> unat ext"
    proof -
      have c: "unat chunksize = 4096" by (simp add: chunksize_def)
      show "16 dvd unat ext" using a(2) c by (simp add: ext_def max_sz_def a_def)
      show "32 \<le> unat ext" using a(1) c by (simp add: ext_def max_sz_def a_def)
      show "a \<le> unat ext"
        using c by (simp add: ext_def max_sz_def a_def word_less_nat_alt)
    qed
    have ru: "round_up ext dsize = ext" by (rule round_up_idem [OF e16(1,2)])
    from extend_heap_inv [OF hi, of ext]
    show ?thesis
    proof
      assume eh: "extend_heap s ext = (s, 0)"
      have "malloc s n = Some (s, 0)"
        using False heap_start_nonnull [OF hb] ff rn eh
        by (simp add: malloc_def Let_def asize_def [symmetric] ext_def [symmetric])
      then show ?thesis using hi by blast
    next
      assume "\<exists>s' b sz bl' fl'. extend_heap s ext = (s', w64 b) \<and> heap_inv s' bl' fl' {}
          \<and> (b, sz, False) \<in> set bl' \<and> unat (round_up ext dsize) \<le> sz
          \<and> allocd bl' = allocd bl"
      then obtain s1 b sz bl1 fl1 where eh: "extend_heap s ext = (s1, w64 b)"
        and hi1: "heap_inv s1 bl1 fl1 {}" and m: "(b, sz, False) \<in> set bl1"
        and le: "unat ext \<le> sz" and al: "allocd bl1 = allocd bl"
        unfolding ru by blast
      from hi1 have hb1: "heap_blocks s1 bl1" by (simp add: heap_inv_def)
      have nz: "w64 b \<noteq> 0" by (rule inv_block_ptr [OF hb1 m])
      have ml: "malloc s n = Some (split_block s1 (w64 b) (w64 a), w64 (b + 8))"
        using False heap_start_nonnull [OF hb] ff rn eh nz
        by (simp add: malloc_def Let_def asize_def [symmetric] ext_def [symmetric] wa [symmetric]
            payload_ptr(3) [OF hb1 m])
      have "a \<le> sz" using e16(3) le by simp
      from malloc_alloc [OF hi1 m a this] obtain bl' fl' sz' where
        "heap_inv (split_block s1 (w64 b) (w64 a)) bl' fl' {}"
        "\<forall>k. (b, k) \<notin> allocd bl1" "allocd bl' = insert (b, sz') (allocd bl1)" "a \<le> sz'"
        by blast
      then show ?thesis
        using ml unfolding a_def asize_def al by blast
    qed
  qed
qed

lemma mm_init_inv:
  assumes bo: "boot_ok s0" and mi: "mm_init s0 = (s, True)"
  shows "\<exists>bl fl. heap_inv s bl fl {} \<and> allocd bl = {}"
proof -
  let ?lo = "unat (mem_start_brk s0)"
  from bo have b: "mem_brk s0 = mem_start_brk s0" "16 dvd ?lo" "?lo \<le> unat (mem_max_addr s0)"
    "unat (mem_max_addr s0) < 2 ^ 63"
    by (simp_all add: boot_ok_def)
  have start: "mem_start_brk s0 = w64 ?lo" by (simp add: w64_unat)
  show ?thesis
  proof (cases "mem_sbrk s0 (2 * wsize)")
    case None
    then show ?thesis using mi by (simp add: mm_init_def)
  next
    case (Some r)
    define s1 where "s1 = s0\<lparr>mem_brk := mem_start_brk s0 + 16\<rparr>"
    from Some have sb: "mem_sbrk s0 (2 * wsize) = Some (mem_start_brk s0, s1)"
      and lim: "?lo + 16 \<le> unat (mem_max_addr s0)"
      by (auto simp add: mem_sbrk_def wsize_def s1_def b(1) split: if_splits)
    define P where "P = pack 0 True True"
    define s2 where "s2 = s1\<lparr>mem := store64 (mem s1) (mem_start_brk s0) (pack 0 True True)\<rparr>"
    define s3 where "s3 = s2\<lparr>mem := store64 (mem s2) (mem_start_brk s0 + 8) (pack 0 True True)\<rparr>"
    define s5 where "s5 = clear_seg_list (s3\<lparr>heap_start := mem_start_brk s0 + 8\<rparr>)"
    have mi': "mm_init s0 = (case extend_heap s5 chunksize of (s6, block) \<Rightarrow>
        if block = NULL then (s6, False) else (s6, True))"
      by (simp add: mm_init_def sb Let_def s5_def s3_def s2_def)
    have s5: "mem s5 = store64 (store64 (mem s0) (w64 ?lo) P) (w64 (?lo + 8)) P"
      "heap_start s5 = w64 (?lo + 8)" "mem_brk s5 = w64 (?lo + 16)"
      "mem_start_brk s5 = mem_start_brk s0" "mem_max_addr s5 = mem_max_addr s0"
      "\<forall>i<list_length. seg_list s5 i = 0"
      by (simp_all add: s5_def s3_def s2_def s1_def clear_seg_list_def P_def start [symmetric]
          w64_add_numeral [symmetric])
    have brk: "unat (mem_brk s5) = ?lo + 16"
    proof -
      have "mem_brk s5 = w64 (?lo + 16)" by (rule s5)
      moreover have "?lo + 16 < 2 ^ 64" using lim b(4) by simp
      ultimately show ?thesis by (simp add: unat_w64)
    qed
    have vlo: "va ?lo" "va (?lo + 8)"
      using b lim dvd_16_8 [OF b(2)] by (simp_all add: va_def)
    have l1: "load64 (mem s5) (w64 ?lo) = P"
      using load_store_va [OF vlo(2) vlo(1)] by (simp add: s5 load64_store64_same)
    have l2: "load64 (mem s5) (w64 (?lo + 8)) = P"
      by (simp add: s5 load64_store64_same)
    have e8: "mem_brk s5 - 8 = w64 (?lo + 8)"
    proof -
      have "8 \<le> unat (mem_brk s5)" using brk by simp
      from w64_unat_sub8 [OF this] show ?thesis by (simp add: brk add.commute)
    qed
    have hb5: "heap_blocks s5 []"
      unfolding heap_blocks_def
    proof (intro conjI)
      show "16 dvd unat (mem_start_brk s5)" using b by (simp add: s5)
      show "unat (mem_brk s5) \<le> unat (mem_max_addr s5)"
        using lim brk by (simp add: s5(5))
      show "unat (mem_max_addr s5) < 2 ^ 63" using b by (simp add: s5)
      show "heap_start s5 = mem_start_brk s5 + 8"
        by (simp add: s5 w64_add_numeral [symmetric] start [symmetric])
      show "unat (mem_start_brk s5) + 16 \<le> unat (mem_brk s5)"
        using brk by (simp add: s5(4))
      show "chain (first_addr s5) [] (epi_addr s5)"
        using brk by (simp add: s5(4))
      show "load64 (mem s5) (mem_start_brk s5) = pack 0 True True"
        using l1 by (simp add: s5(4) start [symmetric] P_def)
      show "hdrs (mem s5) True []" by simp
      show "load64 (mem s5) (mem_brk s5 - 8) = pack 0 True (last_alloc True [])"
        unfolding e8 using l2 by (simp add: P_def)
    qed
    have hl5: "heap_lists s5 [] (\<lambda>_. []) {}"
      using s5(6) by (simp add: heap_lists_def lastp_def)
    have hi5: "heap_inv s5 [] (\<lambda>_. []) {}"
      using hb5 hl5 by (simp add: heap_inv_def)
    from extend_heap_inv [OF hi5, of chunksize]
    show ?thesis
    proof
      assume "extend_heap s5 chunksize = (s5, 0)"
      then show ?thesis using mi unfolding mi' by simp
    next
      assume "\<exists>s' b sz bl' fl'. extend_heap s5 chunksize = (s', w64 b) \<and> heap_inv s' bl' fl' {}
          \<and> (b, sz, False) \<in> set bl' \<and> unat (round_up chunksize dsize) \<le> sz
          \<and> allocd bl' = allocd []"
      then obtain s' b bl' fl' where eh: "extend_heap s5 chunksize = (s', w64 b)"
        and hi': "heap_inv s' bl' fl' {}" and al: "allocd bl' = allocd []"
        by blast
      from mi have "s = s'"
        unfolding mi' eh by (simp split: if_splits)
      then show ?thesis using hi' al by auto
    qed
  qed
qed

section \<open>Writing into the payload of an allocated block\<close>

lemma load64_cong:
  assumes "\<forall>i<8. m' (a + of_nat i) = m (a + of_nat i)"
  shows "load64 m' a = load64 m a"
proof -
  have "m' (a + of_nat i) = m (a + of_nat i)" if "i < 8" for i :: nat
    using assms that by simp
  from this [of 0] this [of 1] this [of 2] this [of 3] this [of 4] this [of 5] this [of 6]
    this [of 7]
  show ?thesis by (simp add: load64_def)
qed

lemma unat_w64_add:
  assumes "x + i < 2 ^ 64"
  shows "unat (w64 x + of_nat i) = x + i"
proof -
  have "w64 x + of_nat i = w64 (x + i)" by (simp add: w64_def)
  then show ?thesis using assms by (simp add: unat_w64)
qed

lemma payload_frame:
  assumes hi: "heap_inv s bl fl U" and b: "(b, sz, True) \<in> set bl"
    and ag: "\<forall>a. \<not> (b + 8 \<le> unat a \<and> unat a < b + sz) \<longrightarrow> m' a = mem s a"
  shows "heap_inv (s\<lparr>mem := m'\<rparr>) bl fl U"
proof -
  from hi have hb: "heap_blocks s bl" by (simp add: heap_inv_def)
  from heap_blocks_at [OF hb b] obtain pre post where
    bl: "bl = pre @ [(b, sz, True)] @ post" and c1: "chain (first_addr s) pre b"
    and hd: "load64 (mem s) (w64 b) = pack (w64 sz) True (last_alloc True pre)"
    by auto
  note v = inv_blockD [OF hb b]
  have ld: "load64 m' (w64 x) = load64 (mem s) (w64 x)" if x: "va x" "x \<le> b \<or> b + sz \<le> x" for x
  proof (rule load64_cong, intro allI impI)
    fix i :: nat assume i: "i < 8"
    have "x + i < 2 ^ 64" using x(1) i by (simp add: va_def)
    then have "unat (w64 x + of_nat i) = x + i" by (rule unat_w64_add)
    then have "\<not> (b + 8 \<le> unat (w64 x + of_nat i) \<and> unat (w64 x + of_nat i) < b + sz)"
      using x(2) i by auto
    then show "m' (w64 x + of_nat i) = mem s (w64 x + of_nat i)"
      using ag by blast
  qed
  have "heap_inv (s\<lparr>mem := m'\<rparr>) (pre @ [(b, sz, True)] @ post) fl U"
  proof (rule retag_same [OF hi [unfolded bl] c1])
    show "chain b [(b, sz, True)] (b + sz)" using v by simp
    show "chain b [(b, sz, True)] (b + sz)" using v by simp
    show "\<forall>a. va a \<longrightarrow> a < b \<or> b + sz \<le> a \<longrightarrow>
        load64 (mem (s\<lparr>mem := m'\<rparr>)) (w64 a) = load64 (mem s) (w64 a)"
      using ld by simp
    show "hdrs (mem (s\<lparr>mem := m'\<rparr>)) (last_alloc True pre) [(b, sz, True)]"
      using ld [OF v(5)] hd by simp
  qed simp_all
  then show ?thesis by (simp add: bl)
qed

lemma range_frame:
  assumes d: "unat (d :: 64 word) = lo" and k: "lo + unat k \<le> hi" and hi: "hi \<le> 2 ^ 63"
    and a: "\<not> (lo \<le> unat a \<and> unat a < hi)"
  shows "\<not> a - d < k"
proof -
  have ua: "unat a < 2 ^ 64" using unsigned_less [of a, where 'a = nat] by simp
  have "unat k \<le> unat (a - d)"
  proof (cases "unat d \<le> unat a")
    case True
    then have "unat (a - d) = unat a - unat d"
      by (simp add: unat_sub_if')
    then show ?thesis using a d k True by simp
  next
    case False
    then have "unat (a - d) = unat a + 2 ^ 64 - unat d"
      by (simp add: unat_sub_if')
    moreover have "unat d \<le> 2 ^ 63" using d k hi by simp
    ultimately have "2 ^ 63 \<le> unat (a - d)" by simp
    moreover have "unat k \<le> 2 ^ 63" using k hi by simp
    ultimately show ?thesis by simp
  qed
  then show ?thesis by (simp add: word_less_nat_alt)
qed

lemma round_up_covers:
  assumes "unat n + 23 < 2 ^ 64"
  shows "unat n + 8 \<le> unat (round_up (n + wsize) dsize)"
proof -
  have "unat n + 23 = 16 * ((unat n + 23) div 16) + (unat n + 23) mod 16"
    by simp
  moreover have "(unat n + 23) mod 16 < 16" by simp
  ultimately have "unat n + 8 \<le> 16 * ((unat n + 23) div 16)" by linarith
  then show ?thesis
    using round_up_exact [OF assms] by simp
qed

lemma allocd_iff: "(b, sz) \<in> allocd bl \<longleftrightarrow> (b, sz, True) \<in> set bl"
  by (simp add: allocd_def)

text \<open>
  Replacing at most \<open>csz - 8\<close> bytes from the payload pointer of an allocated block of
  size \<open>csz\<close> on.
\<close>

lemma payload_fill:
  assumes hi: "heap_inv s bl fl {}" and c: "(c, csz, True) \<in> set bl"
    and k: "unat k + 8 \<le> csz"
    and m': "\<forall>a. \<not> a - w64 (c + 8) < k \<longrightarrow> m' a = mem s a"
  shows "heap_inv (s\<lparr>mem := m'\<rparr>) bl fl {}"
proof (rule payload_frame [OF hi c], intro allI impI)
  from hi have hb: "heap_blocks s bl" by (simp add: heap_inv_def)
  note v = inv_blockD [OF hb c]
  note g = heap_geom [OF hb]
  fix a :: addr assume a: "\<not> (c + 8 \<le> unat a \<and> unat a < c + csz)"
  have "c + 8 < 2 ^ 64" using v(6) by (simp add: va_def)
  then have d: "unat (w64 (c + 8)) = c + 8" by (rule unat_w64)
  have "c + csz \<le> 2 ^ 63" using v(4) g(2) by simp
  from range_frame [OF d _ this a, of k] k have "\<not> a - w64 (c + 8) < k" by simp
  then show "m' a = mem s a" using m' by blast
qed

lemma realloc_inv:
  assumes hi: "heap_inv s bl fl {}" and b: "(b, sz, True) \<in> set bl"
    and n: "unat n + 23 < 2 ^ 64"
  shows "\<exists>s' q bl' fl'. realloc s (w64 (b + 8)) n = Some (s', q) \<and> heap_inv s' bl' fl' {}
      \<and> (if q \<noteq> 0 then
            (\<exists>c csz. q = w64 (c + 8) \<and> allocd bl' = insert (c, csz) (allocd bl - {(b, sz)}))
          else if n = 0 then allocd bl' = allocd bl - {(b, sz)}
          else allocd bl' = allocd bl)"
proof (cases "n = 0")
  case True
  from free_inv [OF hi b] obtain bl' fl' where
    "heap_inv (free s (w64 (b + 8))) bl' fl' {}" "allocd bl' = allocd bl - {(b, sz)}"
    by blast
  moreover have "realloc s (w64 (b + 8)) n = Some (free s (w64 (b + 8)), 0)"
    using True by (simp add: realloc_def)
  ultimately show ?thesis using True by auto
next
  case False
  from hi have hb: "heap_blocks s bl" by (simp add: heap_inv_def)
  note pp = payload_ptr [OF hb b]
  define ptr where "ptr = w64 (b + 8)"
  from malloc_inv [OF hi, of n] obtain s1 q bl1 fl1 where
    ml: "malloc s n = Some (s1, q)" and hi1: "heap_inv s1 bl1 fl1 {}"
    and r: "q = 0 \<and> allocd bl1 = allocd bl
          \<or> (\<exists>c csz. q = w64 (c + 8) \<and> (\<forall>k. (c, k) \<notin> allocd bl)
                \<and> allocd bl1 = insert (c, csz) (allocd bl)
                \<and> unat (round_up (n + wsize) dsize) \<le> csz)"
    by blast
  show ?thesis
  proof (cases "q = 0")
    case True
    then have "realloc s (w64 (b + 8)) n = Some (s1, 0)"
      using False pp(1) ml by (simp add: realloc_def Let_def)
    moreover have "allocd bl1 = allocd bl"
    proof -
      from r show ?thesis
      proof
        assume "\<exists>c csz. q = w64 (c + 8) \<and> (\<forall>k. (c, k) \<notin> allocd bl)
            \<and> allocd bl1 = insert (c, csz) (allocd bl)
            \<and> unat (round_up (n + wsize) dsize) \<le> csz"
        then obtain c csz where "q = w64 (c + 8)" "(c, csz) \<in> allocd bl1" by auto
        then have "q \<noteq> 0"
          using payload_ptr(1) [of s1 bl1 c csz True] hi1 by (simp add: heap_inv_def allocd_iff)
        then show ?thesis using True by simp
      qed simp
    qed
    ultimately show ?thesis using hi1 False by auto
  next
    case qn: False
    with r obtain c csz where q: "q = w64 (c + 8)" and fresh: "\<forall>k. (c, k) \<notin> allocd bl"
      and al1: "allocd bl1 = insert (c, csz) (allocd bl)"
      and le: "unat (round_up (n + wsize) dsize) \<le> csz"
      by blast
    have c1: "(c, csz, True) \<in> set bl1" using al1 by (simp add: allocd_iff [symmetric])
    have b1: "(b, sz, True) \<in> set bl1" using al1 b by (simp add: allocd_iff [symmetric])
    have cb: "(c, csz) \<noteq> (b, sz)" using fresh b by (auto simp add: allocd_iff)
    define k where "k = (if n < get_payload_size s1 (w64 b) then n else get_payload_size s1 (w64 b))"
    have "k \<le> n" by (simp add: k_def not_less)
    then have "unat k \<le> unat n" by (simp add: word_le_nat_alt)
    then have kk: "unat k + 8 \<le> csz"
      using round_up_covers [OF n] le by simp
    define s2 where "s2 = s1\<lparr>mem := memcpy (mem s1) q (w64 (b + 8)) k\<rparr>"
    have hi2: "heap_inv s2 bl1 fl1 {}"
      unfolding s2_def
      by (rule payload_fill [OF hi1 c1 kk]) (simp add: memcpy_def q)
    from free_inv [OF hi2 b1] obtain bl' fl' where
      hi': "heap_inv (free s2 (w64 (b + 8))) bl' fl' {}"
      and al': "allocd bl' = allocd bl1 - {(b, sz)}"
      by blast
    have "realloc s (w64 (b + 8)) n = Some (free s2 (w64 (b + 8)), q)"
      using False pp(1) ml qn
      by (simp add: realloc_def Let_def pp(2) k_def [symmetric] s2_def [symmetric])
    moreover have "allocd bl' = insert (c, csz) (allocd bl - {(b, sz)})"
      using al' al1 cb by auto
    ultimately show ?thesis using hi' qn q by auto
  qed
qed

lemma calloc_inv:
  assumes hi: "heap_inv s bl fl {}" and ca: "calloc s c n = Inr (s', p)"
  shows "\<exists>bl' fl'. heap_inv s' bl' fl' {}
      \<and> (p = 0 \<and> allocd bl' = allocd bl
          \<or> (\<exists>b sz. p = w64 (b + 8) \<and> allocd bl' = insert (b, sz) (allocd bl)))"
proof (cases "c = 0 \<or> (c * n) div c \<noteq> n")
  case True
  then have "calloc s c n = Inr (s, 0)" by (auto simp add: calloc_def Let_def)
  then have "s' = s" "p = 0" using ca by simp_all
  then show ?thesis using hi by blast
next
  case False
  define asize where "asize = c * n"
  from malloc_inv [OF hi, of asize] obtain s1 q bl1 fl1 where
    ml: "malloc s asize = Some (s1, q)" and hi1: "heap_inv s1 bl1 fl1 {}"
    and r: "q = 0 \<and> allocd bl1 = allocd bl
          \<or> (\<exists>b sz. q = w64 (b + 8) \<and> (\<forall>k. (b, k) \<notin> allocd bl)
                \<and> allocd bl1 = insert (b, sz) (allocd bl)
                \<and> unat (round_up (asize + wsize) dsize) \<le> sz)"
    by blast
  from hi1 have hb1: "heap_blocks s1 bl1" by (simp add: heap_inv_def)
  show ?thesis
  proof (cases "q = 0")
    case True
    then have "s' = s1" "p = 0"
      using ca False ml by (auto simp add: calloc_def Let_def asize_def)
    moreover have "allocd bl1 = allocd bl"
    proof -
      from r show ?thesis
      proof
        assume "\<exists>b sz. q = w64 (b + 8) \<and> (\<forall>k. (b, k) \<notin> allocd bl)
            \<and> allocd bl1 = insert (b, sz) (allocd bl)
            \<and> unat (round_up (asize + wsize) dsize) \<le> sz"
        then obtain b sz where "q = w64 (b + 8)" "(b, sz) \<in> allocd bl1" by auto
        then have "q \<noteq> 0"
          using payload_ptr(1) [OF hb1, of b sz True] by (simp add: allocd_iff)
        then show ?thesis using True by simp
      qed simp
    qed
    ultimately show ?thesis using hi1 by blast
  next
    case qn: False
    with r obtain b sz where q: "q = w64 (b + 8)"
      and al1: "allocd bl1 = insert (b, sz) (allocd bl)"
      and le: "unat (round_up (asize + wsize) dsize) \<le> sz"
      by blast
    have b1: "(b, sz, True) \<in> set bl1" using al1 by (simp add: allocd_iff [symmetric])
    from ca False ml qn obtain s2 where ms: "memset s1 q 0 asize = Some s2"
      and res: "s' = s2" "p = q"
      by (auto simp add: calloc_def Let_def asize_def split: option.splits)
    from ms have mp: "mapped s1 q asize"
      and s2: "s2 = s1\<lparr>mem := (\<lambda>a. if a - q < asize then 0 else mem s1 a)\<rparr>"
      by (auto simp add: memset_def split: if_splits)
    have "unat (mem_max_addr s1) < 2 ^ 63" using hb1 by (simp add: heap_blocks_def)
    then have "unat asize < 2 ^ 63"
      using mp by (auto simp add: mapped_def)
    then have "unat asize + 23 < 2 ^ 64" by simp
    from round_up_covers [OF this] le have kk: "unat asize + 8 \<le> sz" by simp
    have "heap_inv s2 bl1 fl1 {}"
      unfolding s2 by (rule payload_fill [OF hi1 b1 kk]) (simp add: q)
    then show ?thesis using res q al1 by blast
  qed
qed

section \<open>The invariant of the reachable states\<close>

lemma payloads_same: "allocd bl' = allocd bl \<Longrightarrow> payloads bl' = payloads bl"
  by (simp add: payloads_def)

lemma payloads_insert:
  "allocd bl' = insert (b, sz) (allocd bl) \<Longrightarrow> payloads bl' = insert (w64 (b + 8)) (payloads bl)"
  by (simp add: payloads_def)

lemma payloads_remove:
  assumes "allocd bl' = allocd bl - {(b, sz)}" "L \<subseteq> payloads bl"
  shows "L - {w64 (b + 8)} \<subseteq> payloads bl'"
proof
  fix x assume x: "x \<in> L - {w64 (b + 8)}"
  with assms(2) obtain b' sz' where x': "x = w64 (b' + 8)" and m: "(b', sz') \<in> allocd bl"
    by (auto simp add: payloads_def)
  have "(b', sz') \<noteq> (b, sz)" using x x' by auto
  then have "(b', sz') \<in> allocd bl'" using m assms(1) by simp
  then show "x \<in> payloads bl'"
    unfolding payloads_def x' by (rule image_eqI [rotated]) simp
qed

lemma payloads_block:
  "p \<in> payloads bl \<Longrightarrow> \<exists>b sz. p = w64 (b + 8) \<and> (b, sz, True) \<in> set bl"
  by (fastforce simp add: payloads_def allocd_iff)

lemma payloads_nonnull: "heap_blocks s bl \<Longrightarrow> 0 \<notin> payloads bl"
  using payload_ptr(1) by (fastforce simp add: payloads_def allocd_iff)

lemma live_grow:
  assumes hi': "heap_inv s' bl' fl' {}" and L: "L \<subseteq> payloads bl"
    and r: "p = 0 \<and> allocd bl' = allocd bl
        \<or> (\<exists>b sz. p = w64 (b + 8) \<and> allocd bl' = insert (b, sz) (allocd bl))"
  shows "(if p = 0 then L else insert p L) \<subseteq> payloads bl'"
proof -
  from hi' have hb': "heap_blocks s' bl'" by (simp add: heap_inv_def)
  from r show ?thesis
  proof
    assume "p = 0 \<and> allocd bl' = allocd bl"
    then show ?thesis using L payloads_same [of bl' bl] by simp
  next
    assume "\<exists>b sz. p = w64 (b + 8) \<and> allocd bl' = insert (b, sz) (allocd bl)"
    then obtain b sz where p: "p = w64 (b + 8)" and al: "allocd bl' = insert (b, sz) (allocd bl)"
      by blast
    have pl: "payloads bl' = insert p (payloads bl)"
      using payloads_insert [OF al] p by simp
    then have "p \<noteq> 0" using payloads_nonnull [OF hb'] by auto
    then show ?thesis using pl L by auto
  qed
qed

lemma reach_inv:
  assumes "reach s L"
  shows "\<exists>bl fl. heap_inv s bl fl {} \<and> L \<subseteq> payloads bl"
  using assms
proof (induction rule: reach.induct)
  case (init s0 s)
  from mm_init_inv [OF init] show ?case by auto
next
  case (malloc s L n s' p)
  then obtain bl fl where hi: "heap_inv s bl fl {}" and L: "L \<subseteq> payloads bl" by blast
  from malloc_inv [OF hi, of n] malloc.hyps(2) obtain bl' fl' where
    hi': "heap_inv s' bl' fl' {}"
    and r: "p = 0 \<and> allocd bl' = allocd bl
        \<or> (\<exists>b sz. p = w64 (b + 8) \<and> allocd bl' = insert (b, sz) (allocd bl))"
    by auto
  from live_grow [OF hi' L r] hi' show ?case by blast
next
  case (calloc s L c n s' p)
  then obtain bl fl where hi: "heap_inv s bl fl {}" and L: "L \<subseteq> payloads bl" by blast
  from calloc_inv [OF hi calloc.hyps(2)] obtain bl' fl' where
    hi': "heap_inv s' bl' fl' {}"
    and r: "p = 0 \<and> allocd bl' = allocd bl
        \<or> (\<exists>b sz. p = w64 (b + 8) \<and> allocd bl' = insert (b, sz) (allocd bl))"
    by auto
  from live_grow [OF hi' L r] hi' show ?case by blast
next
  case (free s L p)
  then obtain bl fl where hi: "heap_inv s bl fl {}" and L: "L \<subseteq> payloads bl" by blast
  from hi have hb: "heap_blocks s bl" by (simp add: heap_inv_def)
  show ?case
  proof (cases "p = 0")
    case True
    then have "free s p = s" by (simp add: free_def)
    moreover have "L - {p} \<subseteq> payloads bl" using L by auto
    ultimately show ?thesis using hi by auto
  next
    case False
    with free.hyps(2) L have "p \<in> payloads bl" by auto
    from payloads_block [OF this] obtain b sz where p: "p = w64 (b + 8)"
      and m: "(b, sz, True) \<in> set bl" by blast
    from free_inv [OF hi m] obtain bl' fl' where
      hi': "heap_inv (free s (w64 (b + 8))) bl' fl' {}"
      and al: "allocd bl' = allocd bl - {(b, sz)}"
      by blast
    from payloads_remove [OF al L] hi' show ?thesis unfolding p by blast
  qed
next
  case (realloc s L p n s' q)
  then obtain bl fl where hi: "heap_inv s bl fl {}" and L: "L \<subseteq> payloads bl" by blast
  from hi have hb: "heap_blocks s bl" by (simp add: heap_inv_def)
  from realloc.hyps(2) L have "p \<in> payloads bl" by auto
  from payloads_block [OF this] obtain b sz where p: "p = w64 (b + 8)"
    and m: "(b, sz, True) \<in> set bl" by blast
  from realloc_inv [OF hi m realloc.hyps(3)] realloc.hyps(4) p
  obtain bl' fl' where hi': "heap_inv s' bl' fl' {}"
    and r: "if q \<noteq> 0 then
            (\<exists>c csz. q = w64 (c + 8) \<and> allocd bl' = insert (c, csz) (allocd bl - {(b, sz)}))
          else if n = 0 then allocd bl' = allocd bl - {(b, sz)}
          else allocd bl' = allocd bl"
    by auto
  have "(if q \<noteq> 0 then insert q (L - {p}) else if n = 0 then L - {p} else L) \<subseteq> payloads bl'"
  proof (cases "q \<noteq> 0")
    case True
    with r obtain c csz where q: "q = w64 (c + 8)"
      and al: "allocd bl' = insert (c, csz) (allocd bl - {(b, sz)})" by auto
    have "L - {p} \<subseteq> (\<lambda>(b, sz). w64 (b + 8)) ` (allocd bl - {(b, sz)})"
    proof
      fix x assume x: "x \<in> L - {p}"
      with L obtain b' sz' where x': "x = w64 (b' + 8)" and m': "(b', sz') \<in> allocd bl"
        by (auto simp add: payloads_def)
      have "(b', sz') \<noteq> (b, sz)" using x x' p by auto
      then have "(b', sz') \<in> allocd bl - {(b, sz)}" using m' by simp
      then show "x \<in> (\<lambda>(b, sz). w64 (b + 8)) ` (allocd bl - {(b, sz)})"
        unfolding x' by (rule image_eqI [rotated]) simp
    qed
    then have "insert q (L - {p}) \<subseteq> payloads bl'"
      unfolding payloads_def al q by auto
    then show ?thesis using True by simp
  next
    case False
    show ?thesis
    proof (cases "n = 0")
      case True
      with r False have al: "allocd bl' = allocd bl - {(b, sz)}" by simp
      from payloads_remove [OF al L] show ?thesis using False True p by simp
    next
      case nz: False
      with r False have "allocd bl' = allocd bl" by simp
      from payloads_same [OF this] show ?thesis using False nz L by simp
    qed
  qed
  then show ?case using hi' by blast
next
  case (realloc_null s L n s' q)
  then obtain bl fl where hi: "heap_inv s bl fl {}" and L: "L \<subseteq> payloads bl" by blast
  show ?case
  proof (cases "n = 0")
    case True
    then have "s' = s" "q = 0"
      using realloc_null.hyps(2) by (simp_all add: realloc_def free_def)
    then show ?thesis using hi L by auto
  next
    case False
    then have ml: "malloc s n = Some (s', q)"
      using realloc_null.hyps(2) by (simp add: realloc_def Let_def)
    from malloc_inv [OF hi, of n] ml obtain bl' fl' where
      hi': "heap_inv s' bl' fl' {}"
      and r: "q = 0 \<and> allocd bl' = allocd bl
          \<or> (\<exists>b sz. q = w64 (b + 8) \<and> allocd bl' = insert (b, sz) (allocd bl))"
      by auto
    from live_grow [OF hi' L r] hi' show ?thesis by blast
  qed
next
  case (store s L p i v)
  then obtain bl fl where hi: "heap_inv s bl fl {}" and L: "L \<subseteq> payloads bl" by blast
  from hi have hb: "heap_blocks s bl" by (simp add: heap_inv_def)
  from store.hyps(2) L have "p \<in> payloads bl" by auto
  from payloads_block [OF this] obtain b sz where p: "p = w64 (b + 8)"
    and m: "(b, sz, True) \<in> set bl" by blast
  note v = inv_blockD [OF hb m]
  note g = heap_geom [OF hb]
  have "get_payload_size s (payload_to_header p) = w64 sz - 8"
    by (simp add: get_payload_size_def p payload_ptr(2) [OF hb m] inv_header(1) [OF hb m] wsize_def)
  also have "\<dots> = w64 (sz - 8)" using v(1) by (simp add: w64_sub_numeral)
  finally have "i < w64 (sz - 8)" using store.hyps(3) by simp
  moreover have "sz - 8 < 2 ^ 64" using v(4) g(2) by simp
  ultimately have i: "unat i < sz - 8"
    by (simp add: word_less_nat_alt unat_w64)
  have "b + 8 + unat i < 2 ^ 64" using i v(4) g(2) by simp
  then have ua: "unat (p + i) = b + 8 + unat i"
    using unat_w64_add [of "b + 8" "unat i"] by (simp add: p)
  have "heap_inv (s\<lparr>mem := (mem s)(p + i := v)\<rparr>) bl fl {}"
  proof (rule payload_frame [OF hi m], intro allI impI)
    fix a :: addr assume "\<not> (b + 8 \<le> unat a \<and> unat a < b + sz)"
    then have "a \<noteq> p + i" using ua i by auto
    then show "((mem s)(p + i := v)) a = mem s a" by simp
  qed
  then show ?case using L by blast
qed

section \<open>The fresh heap satisfies the invariant\<close>

lemma boot_ok_boot: "boot_ok boot"
  by (simp add: boot_ok_def boot_def)

lemma reach_after_init: "reach after_init {}"
  by (rule reach.init [OF boot_ok_boot mm_init_boot])



section \<open>Splitting a listed free block\<close>




section \<open>The prologue and the epilogue\<close>

text \<open>
  C6, as stated, fails right after \<open>mm_init\<close>: the fresh heap is a reachable state, and
  its epilogue word is \<open>pack 0 True False\<close>, with the \<open>prev_alloc\<close> bit clear, because the
  last block of the heap is free.
\<close>

theorem epilogue_prev_alloc_clear:
  "mm_init boot = (after_init, True) \<and> reach after_init {}
   \<and> load64 (mem after_init) (mem_heap_hi after_init - 7) = pack 0 True False
   \<and> \<not> extract_prev_alloc (load64 (mem after_init) (mem_heap_hi after_init - 7))"
proof -
  have "load64 (mem after_init) (mem_heap_hi after_init - 7) = 1"
    by (simp add: mem_heap_hi_def after_init_facts)
  moreover have "pack 0 True False = 1"
    by (simp add: pack_def alloc_mask_def)
  moreover have "\<not> extract_prev_alloc 1"
    by (simp add: extract_prev_alloc_def prev_alloc_mask_def)
  ultimately show ?thesis
    using mm_init_boot reach_after_init by simp
qed

text \<open>
  C6, amended: in every reachable state the prologue word encodes size 0, allocated,
  \<open>prev_alloc\<close> set; the blocks tile the heap from \<open>heap_start\<close> to the epilogue word, the
  last word of the heap; and the epilogue word encodes size 0, allocated, with the
  \<open>prev_alloc\<close> bit equal to the allocation status of the last block of the heap (set when
  there is no block).
\<close>

theorem sentinels_reachable:
  assumes "reach s L"
  shows "load64 (mem s) (mem_heap_lo s) = pack 0 True True
    \<and> (\<exists>bl. chain (unat (heap_start s)) bl (unat (mem_heap_hi s - 7))
          \<and> hdrs (mem s) True bl
          \<and> load64 (mem s) (mem_heap_hi s - 7) = pack 0 True (last_alloc True bl))"
proof -
  from reach_inv [OF assms] obtain bl fl where "heap_inv s bl fl {}" by blast
  then have hb: "heap_blocks s bl" by (simp add: heap_inv_def)
  note g = heap_geom [OF hb]
  have hi: "mem_heap_hi s - 7 = mem_brk s - 8" by (simp add: mem_heap_hi_def)
  have "first_addr s < 2 ^ 64" using g(2) chain_le [OF g(3)] by simp
  then have 1: "unat (heap_start s) = first_addr s"
    unfolding inv_words(3) [OF hb] by (rule unat_w64)
  have "epi_addr s < 2 ^ 64" using g(2) by simp
  then have 2: "unat (mem_heap_hi s - 7) = epi_addr s"
    unfolding hi g(4) by (rule unat_w64)
  have 3: "load64 (mem s) (mem_heap_lo s) = pack 0 True True"
    using hb by (simp add: heap_blocks_def mem_heap_lo_def)
  have 4: "load64 (mem s) (mem_heap_hi s - 7) = pack 0 True (last_alloc True bl)"
    unfolding hi using hb by (simp add: heap_blocks_def)
  have "chain (unat (heap_start s)) bl (unat (mem_heap_hi s - 7)) \<and> hdrs (mem s) True bl
      \<and> load64 (mem s) (mem_heap_hi s - 7) = pack 0 True (last_alloc True bl)"
    unfolding 1 2 using g(3,7) 4 by simp
  then show ?thesis using 3 by blast
qed

theorem sentinels_reachable_witness:
  "reach after_init {}
   \<and> load64 (mem after_init) (mem_heap_lo after_init) = pack 0 True True
   \<and> (\<exists>bl. chain (unat (heap_start after_init)) bl (unat (mem_heap_hi after_init - 7))
         \<and> hdrs (mem after_init) True bl
         \<and> load64 (mem after_init) (mem_heap_hi after_init - 7) = pack 0 True (last_alloc True bl))"
  using sentinels_reachable [OF reach_after_init] reach_after_init by blast

end
